theory Spec2Isabelle
  imports Main "HOL-Library.Word"
begin

section \<open>Package rotation: the rotation manager\<close>

text \<open>
  Go's \<open>int\<close>, \<open>time.Duration\<close> and \<open>time.Time\<close> are modelled as \<open>int\<close>
  (durations and instants in nanoseconds; the zero \<open>time.Time\<close> is 0). The index
  \<open>currentIndex\<close> is only ever assigned 0 or the result of \<open>% len(m.apps)\<close> on
  non-negative operands, so it is a \<open>nat\<close>. A \<open>map[string]string\<close> is a partial
  function.
\<close>

type_synonym Duration = int
type_synonym Time = int
type_synonym Priority = int

record AppEntry =
  ID :: string
  Name :: string
  Path :: string
  Config :: "string \<rightharpoonup> string"
  DwellMs :: int
  Enabled :: bool

record Notification =
  nID :: string
  nText :: string
  nAppID :: string
  nSource :: string
  nConfig :: "string \<rightharpoonup> string"
  nDuration :: Duration
  nPriority :: Priority
  nCreated :: Time

definition PriorityLow :: Priority where "PriorityLow = 0"
definition PriorityNormal :: Priority where "PriorityNormal = 1"
definition PriorityHigh :: Priority where "PriorityHigh = 2"
definition PrioritySticky :: Priority where "PrioritySticky = 3"

text \<open>
  The three control channels carry \<open>struct{}\<close>. \<open>skipCh\<close> and \<open>updateCh\<close> are made
  with capacity 1, so their state is the number of buffered tokens; \<open>stopCh\<close> is
  unbuffered and only ever closed, so its state is whether it has been closed.
  \<open>onAdvance\<close> records whether a callback is registered (the field is non-nil); the
  call itself is returned by \<open>advance\<close> as the argument handed to the goroutine.
\<close>

record Manager =
  apps :: "AppEntry list"
  currentIndex :: nat
  enabled :: bool
  defaultDwell :: Duration
  brightness :: int
  notifyQueue :: "Notification list"
  skipCh :: nat
  updateCh :: nat
  stopCh :: bool
  onAdvance :: bool

datatype error =
    Panic
  | AppNotInstalled string
  | AppNotInRotation string
  | ConfigPathNotSet
  | WriteFailed
  | RenderError string

text \<open>
  Products of Go \<open>int\<close>s (64 bits, two's complement) wrap around; \<open>/\<close> truncates
  towards zero.
\<close>

definition wrap64 :: "int \<Rightarrow> int" where
  "wrap64 x = (x + 2 ^ 63) mod 2 ^ 64 - 2 ^ 63"

definition go_div :: "int \<Rightarrow> int \<Rightarrow> int" where
  "go_div a b =
     (if (a < 0) = (b < 0) then \<bar>a\<bar> div \<bar>b\<bar> else - (\<bar>a\<bar> div \<bar>b\<bar>))"

definition Second :: Duration where "Second = 1000000000"
definition Millisecond :: Duration where "Millisecond = 1000000"

definition chan_cap :: nat where "chan_cap = 1"

text \<open>\<open>select { case ch <- struct{}{}: default: }\<close>: a send that never blocks.\<close>

definition try_send :: "nat \<Rightarrow> nat" where
  "try_send buffered = (if buffered < chan_cap then Suc buffered else buffered)"

definition NewManager :: "Duration \<Rightarrow> Manager" where
  "NewManager dwell =
     \<lparr>apps = [], currentIndex = 0, enabled = True,
      defaultDwell = (if dwell = 0 then 10 * Second else dwell),
      brightness = 80, notifyQueue = [], skipCh = 0, updateCh = 0,
      stopCh = False, onAdvance = False\<rparr>"

definition notifyUpdate :: "Manager \<Rightarrow> Manager" where
  "notifyUpdate m = m\<lparr>updateCh := try_send (updateCh m)\<rparr>"

definition SetApps :: "AppEntry list \<Rightarrow> Manager \<Rightarrow> Manager" where
  "SetApps as m =
     notifyUpdate
       (m\<lparr>apps := as,
          currentIndex := (if currentIndex m \<ge> length as then 0 else currentIndex m)\<rparr>)"

definition GetApps :: "Manager \<Rightarrow> AppEntry list" where
  "GetApps m = apps m"

definition AddApp :: "AppEntry \<Rightarrow> Manager \<Rightarrow> Manager" where
  "AddApp app m = notifyUpdate (m\<lparr>apps := apps m @ [app]\<rparr>)"

text \<open>
  \<open>RemoveApp\<close> ranges over the list and removes the first entry whose ID matches;
  the boolean is its return value.
\<close>

function RemoveApp_loop :: "string \<Rightarrow> nat \<Rightarrow> Manager \<Rightarrow> bool \<times> Manager" where
  "RemoveApp_loop i_d i m =
     (if i < length (apps m) then
        (if ID (apps m ! i) = i_d then
           (let as = take i (apps m) @ drop (i + 1) (apps m);
                m1 = m\<lparr>apps := as\<rparr>;
                m2 = (if currentIndex m1 \<ge> length as \<and> length as > 0
                      then m1\<lparr>currentIndex := 0\<rparr> else m1)
            in (True, notifyUpdate m2))
         else RemoveApp_loop i_d (i + 1) m)
      else (False, m))"
  by pat_completeness auto
termination
  by (relation "measure (\<lambda>(i_d, i, m). length (apps m) - i)") auto

definition RemoveApp :: "string \<Rightarrow> Manager \<Rightarrow> bool \<times> Manager" where
  "RemoveApp i_d m = RemoveApp_loop i_d 0 m"

definition SetEnabled :: "bool \<Rightarrow> Manager \<Rightarrow> Manager" where
  "SetEnabled b m = m\<lparr>enabled := b\<rparr>"

definition IsEnabled :: "Manager \<Rightarrow> bool" where
  "IsEnabled m = enabled m"

definition SetBrightness :: "int \<Rightarrow> Manager \<Rightarrow> Manager" where
  "SetBrightness v m =
     (let v' = (if v < 0 then 0 else if v > 100 then 100 else v)
      in m\<lparr>brightness := v'\<rparr>)"

definition GetBrightness :: "Manager \<Rightarrow> int" where
  "GetBrightness m = brightness m"

definition Skip :: "Manager \<Rightarrow> Manager" where
  "Skip m = m\<lparr>skipCh := try_send (skipCh m)\<rparr>"

text \<open>The scan of \<open>CurrentApp\<close>: \<open>i\<close> runs from 0 while \<open>i < len(m.apps)\<close>.\<close>

function CurrentApp_loop :: "Manager \<Rightarrow> nat \<Rightarrow> AppEntry option" where
  "CurrentApp_loop m i =
     (if i < length (apps m) then
        (let idx = (currentIndex m + i) mod length (apps m)
         in if Enabled (apps m ! idx) then Some (apps m ! idx)
            else CurrentApp_loop m (i + 1))
      else None)"
  by pat_completeness auto
termination
  by (relation "measure (\<lambda>(m, i). length (apps m) - i)") auto

definition CurrentApp :: "Manager \<Rightarrow> AppEntry option" where
  "CurrentApp m = (if length (apps m) = 0 then None else CurrentApp_loop m 0)"

text \<open>
  \<open>PushNotification\<close> stamps the entry with the current time, then ranges over the
  queue; at the first \<open>existing\<close> with \<open>n.Priority > existing.Priority\<close> it splices
  the entry in at that index and stops. \<open>None\<close> stands for \<open>inserted == false\<close>.
\<close>

function PushNotification_loop ::
    "Notification \<Rightarrow> Notification list \<Rightarrow> nat \<Rightarrow> Notification list option" where
  "PushNotification_loop n q i =
     (if i < length q then
        (if nPriority n > nPriority (q ! i) then Some (take i q @ ([n] @ drop i q))
         else PushNotification_loop n q (i + 1))
      else None)"
  by pat_completeness auto
termination
  by (relation "measure (\<lambda>(n, q, i). length q - i)") auto

definition PushNotification :: "Notification \<Rightarrow> Time \<Rightarrow> Manager \<Rightarrow> Manager" where
  "PushNotification n0 now m =
     (let n = n0\<lparr>nCreated := now\<rparr>;
          q = (case PushNotification_loop n (notifyQueue m) 0 of
                 Some q' \<Rightarrow> q'
               | None \<Rightarrow> notifyQueue m @ [n])
      in notifyUpdate (m\<lparr>notifyQueue := q\<rparr>))"

definition ClearNotifications :: "Manager \<Rightarrow> Manager" where
  "ClearNotifications m =
     m\<lparr>notifyQueue := filter (\<lambda>n. nPriority n = PrioritySticky) (notifyQueue m)\<rparr>"

definition OnAdvance :: "Manager \<Rightarrow> Manager" where
  "OnAdvance m = m\<lparr>onAdvance := True\<rparr>"

text \<open>\<open>Stop\<close> closes \<open>stopCh\<close>; closing a closed channel panics.\<close>

definition Stop :: "Manager \<Rightarrow> error + Manager" where
  "Stop m = (if stopCh m then Inl Panic else Inr (m\<lparr>stopCh := True\<rparr>))"

text \<open>
  The search loop of \<open>advance\<close>. \<open>cur\<close> is the value of \<open>m.currentIndex\<close> as the
  loop leaves it: every iteration assigns it before testing the entry.
\<close>

function advance_loop :: "AppEntry list \<Rightarrow> nat \<Rightarrow> nat \<Rightarrow> nat \<Rightarrow> nat" where
  "advance_loop as startIdx i cur =
     (if i < length as then
        (let cur' = (startIdx + i + 1) mod length as
         in if Enabled (as ! cur') then cur'
            else advance_loop as startIdx (i + 1) cur')
      else cur)"
  by pat_completeness auto
termination
  by (relation "measure (\<lambda>(as, startIdx, i, cur). length as - i)") auto

text \<open>
  \<open>advance\<close> returns the new state and, when a callback is registered, the entry
  passed to \<open>go m.onAdvance(app)\<close>. The log line is not modelled.
\<close>

definition advance :: "Manager \<Rightarrow> Manager \<times> AppEntry option" where
  "advance m =
     (if length (apps m) = 0 then (m, None)
      else
        (let m' = m\<lparr>currentIndex := advance_loop (apps m) (currentIndex m) 0 (currentIndex m)\<rparr>
         in (m', if onAdvance m' then Some (apps m' ! currentIndex m') else None)))"

text \<open>\<open>apps[currentIndex]\<close> panics when the index is out of range.\<close>

definition getCurrentDwell :: "Manager \<Rightarrow> error + Duration" where
  "getCurrentDwell m =
     (if length (apps m) = 0 then Inr (defaultDwell m)
      else if currentIndex m \<ge> length (apps m) then Inl Panic
      else (let app = apps m ! currentIndex m
            in if DwellMs app > 0 then Inr (wrap64 (DwellMs app * Millisecond))
               else Inr (defaultDwell m)))"

subsection \<open>The control loop \<open>Run\<close>\<close>

text \<open>
  \<open>Run\<close> is a \<open>for { select { ... } }\<close> over \<open>stopCh\<close>, \<open>skipCh\<close>, \<open>updateCh\<close>
  and a 100 ms ticker. One wake-up of the loop is one \<open>wake\<close>: the case the
  \<open>select\<close> took, with the values \<open>time.Now()\<close> returns inside that iteration. A
  case can be taken only when its channel is ready. The loop's local variables
  \<open>lastAdvance\<close> and \<open>currentDwell\<close> live in the record \<open>Loop\<close>, together with the
  callback invocations spawned so far (\<open>spawned\<close>, oldest first) and whether \<open>Run\<close>
  has returned. \<open>time.Since(t)\<close> is the difference of two instants. Every
  method holds the manager's lock while it runs; one iteration of the loop is
  taken as a single step.
\<close>

datatype wake = WakeStop | WakeSkip Time | WakeUpdate | WakeTick Time Time Time

record Loop =
  mgr :: Manager
  lastAdvance :: Time
  currentDwell :: Duration
  spawned :: "AppEntry list"
  returned :: bool

definition Run_init :: "Manager \<Rightarrow> Loop" where
  "Run_init m = \<lparr>mgr = m, lastAdvance = 0, currentDwell = 0, spawned = [], returned = False\<rparr>"

fun wake_ready :: "wake \<Rightarrow> Loop \<Rightarrow> bool" where
  "wake_ready WakeStop l = (\<not> returned l \<and> stopCh (mgr l))"
| "wake_ready (WakeSkip now) l = (\<not> returned l \<and> skipCh (mgr l) > 0)"
| "wake_ready WakeUpdate l = (\<not> returned l \<and> updateCh (mgr l) > 0)"
| "wake_ready (WakeTick t1 t2 t3) l = (\<not> returned l)"

definition advance_and_reset :: "Time \<Rightarrow> Loop \<Rightarrow> error + Loop" where
  "advance_and_reset now l =
     (let (m', call) = advance (mgr l);
          l' = l\<lparr>mgr := m', lastAdvance := now,
                 spawned := spawned l @ (case call of None \<Rightarrow> [] | Some a \<Rightarrow> [a])\<rparr>
      in case getCurrentDwell m' of
           Inl e \<Rightarrow> Inl e
         | Inr d \<Rightarrow> Inr (l'\<lparr>currentDwell := d\<rparr>))"

fun Run_case :: "wake \<Rightarrow> Loop \<Rightarrow> error + Loop" where
  "Run_case WakeStop l = Inr (l\<lparr>returned := True\<rparr>)"
| "Run_case (WakeSkip now) l =
     advance_and_reset now (l\<lparr>mgr := (mgr l)\<lparr>skipCh := skipCh (mgr l) - 1\<rparr>\<rparr>)"
| "Run_case WakeUpdate l =
     (let m' = (mgr l)\<lparr>updateCh := updateCh (mgr l) - 1\<rparr>
      in case getCurrentDwell m' of
           Inl e \<Rightarrow> Inl e
         | Inr d \<Rightarrow> Inr (l\<lparr>mgr := m', currentDwell := d\<rparr>))"
| "Run_case (WakeTick t1 t2 t3) l =
     (if \<not> IsEnabled (mgr l) then Inr l
      else
        (case (if currentDwell l = 0
               then (case getCurrentDwell (mgr l) of
                       Inl e \<Rightarrow> Inl e
                     | Inr d \<Rightarrow> Inr (l\<lparr>currentDwell := d, lastAdvance := t1\<rparr>))
               else Inr l) of
           Inl e \<Rightarrow> Inl e
         | Inr l1 \<Rightarrow>
             if t2 - lastAdvance l1 \<ge> currentDwell l1 then advance_and_reset t3 l1
             else Inr l1))"

subsection \<open>Calls and wake-ups interleaved\<close>

text \<open>
  The exported methods of \<open>Manager\<close> as calls, and an execution as a list of
  actions: a call from any goroutine or a wake-up of the loop. \<open>exec\<close> is \<open>None\<close>
  when an action cannot happen there (a wake-up whose channel is not ready) or when
  it panics.
\<close>

datatype call =
    CallSetApps "AppEntry list"
  | CallAddApp AppEntry
  | CallRemoveApp string
  | CallSetEnabled bool
  | CallSetBrightness int
  | CallSkip
  | CallPushNotification Notification Time
  | CallClearNotifications
  | CallOnAdvance
  | CallStop

fun do_call :: "call \<Rightarrow> Manager \<Rightarrow> error + Manager" where
  "do_call (CallSetApps as) m = Inr (SetApps as m)"
| "do_call (CallAddApp a) m = Inr (AddApp a m)"
| "do_call (CallRemoveApp i_d) m = Inr (snd (RemoveApp i_d m))"
| "do_call (CallSetEnabled b) m = Inr (SetEnabled b m)"
| "do_call (CallSetBrightness v) m = Inr (SetBrightness v m)"
| "do_call CallSkip m = Inr (Skip m)"
| "do_call (CallPushNotification n now) m = Inr (PushNotification n now m)"
| "do_call CallClearNotifications m = Inr (ClearNotifications m)"
| "do_call CallOnAdvance m = Inr (OnAdvance m)"
| "do_call CallStop m = Stop m"

datatype action = Call call | Wake wake

fun step :: "action \<Rightarrow> Loop \<Rightarrow> Loop option" where
  "step (Call c) l =
     (case do_call c (mgr l) of Inl e \<Rightarrow> None | Inr m' \<Rightarrow> Some (l\<lparr>mgr := m'\<rparr>))"
| "step (Wake w) l =
     (if wake_ready w l
      then (case Run_case w l of Inl e \<Rightarrow> None | Inr l' \<Rightarrow> Some l')
      else None)"

fun exec :: "action list \<Rightarrow> Loop \<Rightarrow> Loop option" where
  "exec [] l = Some l"
| "exec (a # as) l = (case step a l of None \<Rightarrow> None | Some l' \<Rightarrow> exec as l')"

section \<open>Packages pixlet, apps and config: what the display uses\<close>

text \<open>
  An \<open>image.Image\<close> is its bounds' width and height (\<open>Dx\<close>, \<open>Dy\<close>, not negative
  for the well-formed rectangles the painter produces) and its colour function
  \<open>At(x, y).RGBA()\<close>, four \<open>uint32\<close>.
\<close>

type_synonym byte = "8 word"

record image =
  Dx :: nat
  Dy :: nat
  RGBA_At :: "nat \<Rightarrow> nat \<Rightarrow> 32 word \<times> 32 word \<times> 32 word \<times> 32 word"

record Frame =
  fImages :: "image list"
  fDelayMs :: int
  fMaxAge :: int
  fAppName :: string
  fWidth :: int
  fHeight :: int

definition pixel_bytes :: "image \<Rightarrow> nat \<Rightarrow> nat \<Rightarrow> byte list" where
  "pixel_bytes img x y =
     (case RGBA_At img x y of
        (r, g, b, a) \<Rightarrow> [ucast (drop_bit 8 r), ucast (drop_bit 8 g), ucast (drop_bit 8 b)])"

text \<open>
  \<open>ImagesToRGB\<close> fills a buffer of \<open>width * height * 3 * len(images)\<close> bytes, frame
  after frame, row after row, with the dimensions of the first image; written
  here as the concatenation in that order. The \<open>nil\<close> slice is the empty list.
\<close>

definition ImagesToRGB :: "image list \<Rightarrow> byte list" where
  "ImagesToRGB images =
     (if length images = 0 then []
      else
        (let width = Dx (hd images); height = Dy (hd images)
         in concat (map (\<lambda>img.
              concat (map (\<lambda>y.
                concat (map (\<lambda>x. pixel_bytes img x y) [0..<width])) [0..<height])) images)))"

text \<open>
  The Starlark programs the display synthesises for its startup and error screens
  are a fixed template with the arguments \<open>fmt.Sprintf\<close> substitutes; a program
  is represented by the template and those arguments.
\<close>

datatype source = StartupSource | ErrorSource string

text \<open>
  The two rendering methods run the Starlark interpreter on a file or on a source
  text; what they return is an input of the model.
\<close>

record Renderer =
  RenderApp :: "string \<Rightarrow> (string \<rightharpoonup> string) \<Rightarrow> error + Frame"
  RenderAppFromSource :: "string \<Rightarrow> source \<Rightarrow> (string \<rightharpoonup> string) \<Rightarrow> error + Frame"

record App =
  aID :: string
  aName :: string
  aSummary :: string
  aDescription :: string
  aAuthor :: string
  aCategory :: string
  aPath :: string
  aConfig :: "string \<rightharpoonup> string"
  aSchemaJSON :: "byte list"
  aSource :: string
  aInstalled :: Time

record Repository =
  dataDir :: string
  appsDir :: string
  installed :: "string \<rightharpoonup> App"

definition Repository_Get :: "Repository \<Rightarrow> string \<Rightarrow> App option" where
  "Repository_Get r i_d = installed r i_d"

record Config =
  path :: string
  Port :: string
  LogLevel :: string
  DefaultWidth :: int
  DefaultHeight :: int
  DefaultDwell :: int
  cBrightness :: int
  RotationEnabled :: bool
  cApps :: "AppEntry list"
  PowerOn :: bool

definition DefaultConfig :: Config where
  "DefaultConfig =
     \<lparr>path = [], Port = ''8176'', LogLevel = ''info'', DefaultWidth = 64,
      DefaultHeight = 32, DefaultDwell = 10000, cBrightness = 80,
      RotationEnabled = True, cApps = [], PowerOn = True\<rparr>"

text \<open>
  \<open>Save\<close> writes the configuration to the file at \<open>path\<close>. Whether the file
  system accepts the write is the input \<open>fs_ok\<close>; the result is the error, if
  any, and the configuration now on disk when the write happened.
\<close>

definition Save :: "bool \<Rightarrow> Config \<Rightarrow> error option \<times> Config option" where
  "Save fs_ok c =
     (if path c = [] then (Some ConfigPathNotSet, None)
      else if \<not> fs_ok then (Some WriteFailed, None)
      else (None, Some c))"

text \<open>
  Each setter stores one field and saves: it returns the error of \<open>Save\<close>, the
  configuration in memory and what was written.
\<close>

definition Config_SetBrightness ::
    "bool \<Rightarrow> int \<Rightarrow> Config \<Rightarrow> error option \<times> Config \<times> Config option" where
  "Config_SetBrightness fs_ok v c =
     (let c' = c\<lparr>cBrightness := v\<rparr> in (fst (Save fs_ok c'), c', snd (Save fs_ok c')))"

definition Config_SetPower ::
    "bool \<Rightarrow> bool \<Rightarrow> Config \<Rightarrow> error option \<times> Config \<times> Config option" where
  "Config_SetPower fs_ok on c =
     (let c' = c\<lparr>PowerOn := on\<rparr> in (fst (Save fs_ok c'), c', snd (Save fs_ok c')))"

definition Config_SetRotationEnabled ::
    "bool \<Rightarrow> bool \<Rightarrow> Config \<Rightarrow> error option \<times> Config \<times> Config option" where
  "Config_SetRotationEnabled fs_ok b c =
     (let c' = c\<lparr>RotationEnabled := b\<rparr> in (fst (Save fs_ok c'), c', snd (Save fs_ok c')))"

definition Config_GetApps :: "Config \<Rightarrow> AppEntry list" where
  "Config_GetApps c = cApps c"

section \<open>Package display\<close>

record FrameData =
  Pixels :: "byte list"
  Width :: int
  Height :: int
  FrameCount :: int
  DelayMs :: int
  DwellSecs :: int
  Brightness :: int
  AppName :: string
  UpdatedAt :: Time

text \<open>
  \<open>currentFrame\<close> is a pointer that can be \<open>nil\<close>. The rotation manager, the
  configuration and the repository are held by pointer; the record holds their
  current values.
\<close>

record Display =
  dID :: string
  dName :: string
  dWidth :: int
  dHeight :: int
  ClientType :: string
  config :: Config
  repo :: Repository
  rotation :: Manager
  currentFrame :: "FrameData option"

text \<open>
  \<open>make([]byte, n)\<close> panics when \<open>n\<close> is negative and when it exceeds the
  largest size the runtime allocates, \<open>maxAlloc\<close>: \<open>1 << 48\<close> bytes on the 64-bit
  platforms the server runs on.
\<close>

definition maxAlloc :: int where "maxAlloc = 2 ^ 48"

definition make_bytes :: "int \<Rightarrow> error + byte list" where
  "make_bytes n =
     (if n < 0 \<or> n > maxAlloc then Inl Panic else Inr (replicate (nat n) 0))"

definition setFrame :: "Time \<Rightarrow> Frame \<Rightarrow> byte list \<Rightarrow> Display \<Rightarrow> Display" where
  "setFrame now frame pixels d =
     (let frameCount = (if length (fImages frame) > 0 then int (length (fImages frame)) else 1)
      in d\<lparr>currentFrame := Some
            \<lparr>Pixels = pixels, Width = dWidth d, Height = dHeight d,
             FrameCount = frameCount, DelayMs = fDelayMs frame,
             DwellSecs = go_div (DefaultDwell (config d)) 1000,
             Brightness = GetBrightness (rotation d),
             AppName = fAppName frame, UpdatedAt = now\<rparr>\<rparr>)"

definition RenderSource ::
    "Renderer \<Rightarrow> Time \<Rightarrow> string \<Rightarrow> source \<Rightarrow> (string \<rightharpoonup> string) \<Rightarrow> Display
     \<Rightarrow> error option \<times> Display" where
  "RenderSource rnd now appID src cfg d =
     (case RenderAppFromSource rnd appID src cfg of
        Inl err \<Rightarrow> (Some err, d)
      | Inr frame \<Rightarrow> (None, setFrame now frame (ImagesToRGB (fImages frame)) d))"

definition renderStartupScreen :: "Renderer \<Rightarrow> Time \<Rightarrow> Display \<Rightarrow> Display" where
  "renderStartupScreen rnd now d = snd (RenderSource rnd now ''startup'' StartupSource Map.empty d)"

definition renderErrorScreen :: "Renderer \<Rightarrow> Time \<Rightarrow> string \<Rightarrow> error \<Rightarrow> Display \<Rightarrow> Display" where
  "renderErrorScreen rnd now appName err d =
     snd (RenderSource rnd now ''error'' (ErrorSource appName) Map.empty d)"

definition renderApp :: "Renderer \<Rightarrow> Time \<Rightarrow> AppEntry \<Rightarrow> Display \<Rightarrow> Display" where
  "renderApp rnd now app d =
     (case RenderApp rnd (Path app) (Config app) of
        Inl err \<Rightarrow> renderErrorScreen rnd now (Name app) err d
      | Inr frame \<Rightarrow> setFrame now frame (ImagesToRGB (fImages frame)) d)"

definition renderBlankScreen :: "Time \<Rightarrow> Display \<Rightarrow> error + Display" where
  "renderBlankScreen now d =
     (case make_bytes (wrap64 (wrap64 (dWidth d * dHeight d) * 3)) of
        Inl e \<Rightarrow> Inl e
      | Inr pixels \<Rightarrow>
          Inr (d\<lparr>currentFrame := Some
                 \<lparr>Pixels = pixels, Width = dWidth d, Height = dHeight d,
                  FrameCount = 1, DelayMs = 50, DwellSecs = 0, Brightness = 0,
                  AppName = ''off'', UpdatedAt = now\<rparr>\<rparr>))"

text \<open>
  The test pattern: for each pixel, red grows with \<open>x\<close>, green with \<open>y\<close>, blue is
  128. The loops run only for positive width and height, so the divisions are
  defined; \<open>byte(...)\<close> keeps the low 8 bits. When the size of the buffer has
  overflowed, the buffer is shorter than the pixels the loops write and an index
  is out of range.
\<close>

definition generateTestPattern :: "Time \<Rightarrow> Display \<Rightarrow> error + FrameData" where
  "generateTestPattern now d =
     (case make_bytes (wrap64 (wrap64 (dWidth d * dHeight d) * 3)) of
        Inl e \<Rightarrow> Inl e
      | Inr zeros \<Rightarrow>
          if dWidth d > 0 \<and> dHeight d > 0
             \<and> wrap64 (wrap64 (dWidth d * dHeight d) * 3) \<noteq> dWidth d * dHeight d * 3
          then Inl Panic
          else
          Inr \<lparr>Pixels =
                 (if dWidth d > 0 \<and> dHeight d > 0 then
                    concat (map (\<lambda>y. concat (map (\<lambda>x.
                      [word_of_int (go_div (wrap64 (int x * 255)) (dWidth d)),
                       word_of_int (go_div (wrap64 (int y * 255)) (dHeight d)),
                       128]) [0..<nat (dWidth d)])) [0..<nat (dHeight d)])
                  else zeros),
               Width = dWidth d, Height = dHeight d, FrameCount = 1, DelayMs = 50,
               DwellSecs = 0, Brightness = 80, AppName = ''test-pattern'',
               UpdatedAt = now\<rparr>)"

definition NewDisplay ::
    "Renderer \<Rightarrow> Time \<Rightarrow> string \<Rightarrow> string \<Rightarrow> int \<Rightarrow> int \<Rightarrow> Config \<Rightarrow> Repository \<Rightarrow> Display" where
  "NewDisplay rnd now i_d name width height cfg appRepo =
     (let d = \<lparr>dID = i_d, dName = name, dWidth = width, dHeight = height, ClientType = [],
               config = cfg, repo = appRepo,
               rotation = NewManager (wrap64 (DefaultDwell cfg * Millisecond)),
               currentFrame = None\<rparr>;
          r1 = SetEnabled (RotationEnabled cfg) (rotation d);
          r2 = SetBrightness (cBrightness cfg) r1;
          r3 = SetApps (Config_GetApps cfg) r2;
          r4 = OnAdvance r3
      in renderStartupScreen rnd now (d\<lparr>rotation := r4\<rparr>))"

text \<open>
  \<open>GetFrame\<close> returns a copy of the current frame in which the dwell and the
  brightness are read from the configuration and the rotation manager.
\<close>

definition GetFrame :: "Time \<Rightarrow> Display \<Rightarrow> error + FrameData" where
  "GetFrame now d =
     (case currentFrame d of
        None \<Rightarrow> generateTestPattern now d
      | Some f \<Rightarrow>
          Inr \<lparr>Pixels = Pixels f, Width = Width f, Height = Height f,
               FrameCount = FrameCount f, DelayMs = DelayMs f,
               DwellSecs = go_div (DefaultDwell (config d)) 1000,
               Brightness = GetBrightness (rotation d),
               AppName = AppName f, UpdatedAt = UpdatedAt f\<rparr>)"

text \<open>
  The mutating methods return the error value, the display afterwards and what
  \<open>Save\<close> wrote to disk; \<open>Inl Panic\<close> is a panic.
\<close>

definition Display_SetBrightness ::
    "bool \<Rightarrow> int \<Rightarrow> Display \<Rightarrow> error option \<times> Display \<times> Config option" where
  "Display_SetBrightness fs_ok v d =
     (let r = SetBrightness v (rotation d);
          (err, c, written) = Config_SetBrightness fs_ok v (config d)
      in (err, d\<lparr>rotation := r, config := c\<rparr>, written))"

definition Display_GetBrightness :: "Display \<Rightarrow> int" where
  "Display_GetBrightness d = GetBrightness (rotation d)"

definition Display_SetPower ::
    "Renderer \<Rightarrow> bool \<Rightarrow> Time \<Rightarrow> bool \<Rightarrow> Display
     \<Rightarrow> error + (error option \<times> Display \<times> Config option)" where
  "Display_SetPower rnd fs_ok now on d =
     (case (if \<not> on then
              renderBlankScreen now (d\<lparr>rotation := SetEnabled False (rotation d)\<rparr>)
            else
              (let d1 = d\<lparr>rotation := SetEnabled (RotationEnabled (config d)) (rotation d)\<rparr>
               in case CurrentApp (rotation d1) of
                    Some app \<Rightarrow> Inr (renderApp rnd now app d1)
                  | None \<Rightarrow> Inr (renderStartupScreen rnd now d1))) of
        Inl e \<Rightarrow> Inl e
      | Inr d2 \<Rightarrow>
          (let (err, c, written) = Config_SetPower fs_ok on (config d2)
           in Inr (err, d2\<lparr>config := c\<rparr>, written)))"

definition IsPowerOn :: "Display \<Rightarrow> bool" where
  "IsPowerOn d = PowerOn (config d)"

definition Display_SetRotationEnabled ::
    "bool \<Rightarrow> bool \<Rightarrow> Display \<Rightarrow> error option \<times> Display \<times> Config option" where
  "Display_SetRotationEnabled fs_ok b d =
     (let r = SetEnabled b (rotation d);
          (err, c, written) = Config_SetRotationEnabled fs_ok b (config d)
      in (err, d\<lparr>rotation := r, config := c\<rparr>, written))"

definition IsRotationEnabled :: "Display \<Rightarrow> bool" where
  "IsRotationEnabled d = IsEnabled (rotation d)"

definition Display_Skip :: "Display \<Rightarrow> Display" where
  "Display_Skip d = d\<lparr>rotation := Skip (rotation d)\<rparr>"

text \<open>
  \<open>ShowApp\<close> starts a goroutine that sleeps and then calls
  \<open>d.rotation.SetEnabled(wasEnabled)\<close>. The goroutine is returned as a \<open>task\<close>
  holding the two values its closure captured; \<open>run_task\<close> is its effect when the
  sleep is over.
\<close>

datatype task = Restore int bool

fun run_task :: "task \<Rightarrow> Display \<Rightarrow> Display" where
  "run_task (Restore durationSecs wasEnabled) d =
     d\<lparr>rotation := SetEnabled wasEnabled (rotation d)\<rparr>"

definition ShowApp ::
    "Renderer \<Rightarrow> Time \<Rightarrow> string \<Rightarrow> int \<Rightarrow> Display \<Rightarrow> error option \<times> Display \<times> task option" where
  "ShowApp rnd now appID durationSecs d =
     (case Repository_Get (repo d) appID of
        None \<Rightarrow> (Some (AppNotInstalled appID), d, None)
      | Some app \<Rightarrow>
          (let wasEnabled = IsEnabled (rotation d);
               d1 = d\<lparr>rotation := SetEnabled False (rotation d)\<rparr>;
               entry = \<lparr>ID = appID, Name = aName app, Path = aPath app,
                        Config = aConfig app, DwellMs = 0, Enabled = False\<rparr>;
               d2 = renderApp rnd now entry d1
           in (None, d2,
               if durationSecs > 0 then Some (Restore durationSecs wasEnabled) else None)))"

section \<open>Notions used by the properties\<close>

text \<open>A sequence of pushes, each with the time at which it happens.\<close>

fun push_all :: "(Notification \<times> Time) list \<Rightarrow> Manager \<Rightarrow> Manager" where
  "push_all [] m = m"
| "push_all ((n, now) # ps) m = push_all ps (PushNotification n now m)"

definition stamped :: "(Notification \<times> Time) list \<Rightarrow> Notification list" where
  "stamped ps = map (\<lambda>(n, now). n\<lparr>nCreated := now\<rparr>) ps"

text \<open>
  The advances the loop makes because of a skip: its wake-ups on \<open>skipCh\<close>, each
  of which calls \<open>advance\<close> once.
\<close>

fun is_skip_wake :: "action \<Rightarrow> bool" where
  "is_skip_wake (Wake (WakeSkip now)) = True"
| "is_skip_wake a = False"

definition early_advances :: "action list \<Rightarrow> nat" where
  "early_advances as = length (filter is_skip_wake as)"

text \<open>The wake-ups on the ticker, which advance when the dwell has elapsed.\<close>

fun is_tick_wake :: "action \<Rightarrow> bool" where
  "is_tick_wake (Wake (WakeTick t1 t2 t3)) = True"
| "is_tick_wake a = False"

definition tick_wakes :: "action list \<Rightarrow> nat" where
  "tick_wakes as = length (filter is_tick_wake as)"

text \<open>The index is inside the list, or the list is empty and the index is 0.\<close>

definition index_ok :: "Manager \<Rightarrow> bool" where
  "index_ok m = (currentIndex m < length (apps m) \<or> currentIndex m = 0)"

text \<open>
  The rotation of three applications used as an example: \<open>a\<close> enabled with the
  default dwell, \<open>b\<close> disabled, \<open>c\<close> enabled with a dwell of 2000 ms; the default
  dwell is 5000 ms.
\<close>

definition app_a :: AppEntry where
  "app_a = \<lparr>ID = ''a'', Name = ''A'', Path = ''a.star'', Config = Map.empty, DwellMs = 0,
            Enabled = True\<rparr>"

definition app_b :: AppEntry where
  "app_b = \<lparr>ID = ''b'', Name = ''B'', Path = ''b.star'', Config = Map.empty, DwellMs = 0,
            Enabled = False\<rparr>"

definition app_c :: AppEntry where
  "app_c = \<lparr>ID = ''c'', Name = ''C'', Path = ''c.star'', Config = Map.empty, DwellMs = 2000,
            Enabled = True\<rparr>"

definition rotation_abc :: Manager where
  "rotation_abc = SetApps [app_a, app_b, app_c] (NewManager (5000 * Millisecond))"

definition rotation_at_b :: Manager where
  "rotation_at_b = rotation_abc\<lparr>currentIndex := 1\<rparr>"

text \<open>A notification with nothing but an identifier and a priority.\<close>

definition notif :: "string \<Rightarrow> Priority \<Rightarrow> Notification" where
  "notif i p = \<lparr>nID = i, nText = [], nAppID = [], nSource = [], nConfig = Map.empty,
               nDuration = 0, nPriority = p, nCreated = 0\<rparr>"

definition pushes_lnhn :: "(Notification \<times> Time) list" where
  "pushes_lnhn = [(notif ''l'' PriorityLow, 1), (notif ''n1'' PriorityNormal, 2),
                  (notif ''h'' PriorityHigh, 3), (notif ''n2'' PriorityNormal, 4)]"

text \<open>
  A rotation whose only entry is disabled, with the advance callback registered,
  and the execution in which one \<open>Skip\<close> is followed by the loop's wake-up.
\<close>

definition rotation_only_b :: Manager where
  "rotation_only_b = OnAdvance (SetApps [app_b] (NewManager (5000 * Millisecond)))"

definition skip_only_b :: "action list" where
  "skip_only_b = [Call (CallSetApps [app_b]), Call CallOnAdvance, Call CallSkip, Wake (WakeSkip 1)]"

text \<open>
  An execution on the three applications with the callback registered and rotation
  disabled, in which two \<open>Skip\<close>s with another call between them happen before
  the loop wakes, and the wake-ups that follow.
\<close>

definition two_skips :: "action list" where
  "two_skips = [Call (CallSetApps [app_a, app_b, app_c]), Call CallOnAdvance,
                Call (CallSetEnabled False), Call CallSkip, Call (CallSetBrightness 50),
                Call CallSkip]"

definition wakes_after :: "action list" where
  "wakes_after = [Wake (WakeSkip 3), Wake (WakeTick 4 4 4), Wake WakeUpdate]"

text \<open>
  A display of 2 by 1 pixels on the default configuration saved at
  \<open>/data/config.json\<close>, with a renderer that fails on everything and a
  repository holding the one application \<open>clock\<close>.
\<close>

definition failing_renderer :: Renderer where
  "failing_renderer =
     \<lparr>RenderApp = (\<lambda>p c. Inl (RenderError ''no file'')),
      RenderAppFromSource = (\<lambda>i src c. Inl (RenderError ''no runtime''))\<rparr>"

definition clock_app :: App where
  "clock_app =
     \<lparr>aID = ''clock'', aName = ''Clock'', aSummary = [], aDescription = [], aAuthor = [],
      aCategory = [], aPath = ''/data/apps/clock.star'', aConfig = Map.empty,
      aSchemaJSON = [], aSource = ''local'', aInstalled = 0\<rparr>"

definition clock_repo :: Repository where
  "clock_repo =
     \<lparr>dataDir = ''/data'', appsDir = ''/data/apps'',
      installed = [''clock'' \<mapsto> clock_app]\<rparr>"

definition small_display :: Display where
  "small_display =
     NewDisplay failing_renderer 0 ''d1'' ''Desk'' 2 1
       (DefaultConfig\<lparr>path := ''/data/config.json''\<rparr>) clock_repo"

section \<open>Properties\<close>

declare RemoveApp_loop.simps [simp del] CurrentApp_loop.simps [simp del]
  PushNotification_loop.simps [simp del] advance_loop.simps [simp del]

subsection \<open>Executions preserve invariants\<close>

lemma exec_invariant:
  assumes "\<And>a l l'. step a l = Some l' \<Longrightarrow> P l \<Longrightarrow> P l'"
  shows "exec as l = Some l' \<Longrightarrow> P l \<Longrightarrow> P l'"
proof (induction as arbitrary: l)
  case Nil
  then show ?case by simp
next
  case (Cons a as)
  from Cons.prems(1) obtain l1 where s: "step a l = Some l1" and e: "exec as l1 = Some l'"
    by (auto split: option.splits)
  from assms [OF s Cons.prems(2)] have "P l1" .
  from Cons.IH [OF e this] show ?case .
qed

subsection \<open>Brightness\<close>

lemma RemoveApp_loop_brightness: "brightness (snd (RemoveApp_loop i_d i m)) = brightness m"
  by (induction i_d i m rule: RemoveApp_loop.induct)
     (subst RemoveApp_loop.simps, simp add: Let_def notifyUpdate_def)

lemma do_call_brightness:
  "do_call c m = Inr m' \<Longrightarrow> 0 \<le> brightness m \<and> brightness m \<le> 100 \<Longrightarrow>
   0 \<le> brightness m' \<and> brightness m' \<le> 100"
  by (cases c)
     (auto simp: SetApps_def AddApp_def RemoveApp_def RemoveApp_loop_brightness SetEnabled_def
        SetBrightness_def Skip_def PushNotification_def ClearNotifications_def OnAdvance_def
        Stop_def notifyUpdate_def Let_def split: if_splits option.splits)

lemma advance_and_reset_brightness:
  "advance_and_reset now l = Inr l' \<Longrightarrow> brightness (mgr l') = brightness (mgr l)"
  by (auto simp: advance_and_reset_def Let_def advance_def split: sum.splits prod.splits if_splits)

lemma Run_case_brightness:
  "Run_case w l = Inr l' \<Longrightarrow> brightness (mgr l') = brightness (mgr l)"
  by (cases w)
     (auto simp: Let_def dest!: advance_and_reset_brightness split: sum.splits if_splits)

lemma step_brightness:
  "step a l = Some l' \<Longrightarrow> 0 \<le> brightness (mgr l) \<and> brightness (mgr l) \<le> 100 \<Longrightarrow>
   0 \<le> brightness (mgr l') \<and> brightness (mgr l') \<le> 100"
  by (cases a)
     (auto split: sum.splits if_splits dest: do_call_brightness Run_case_brightness)

lemma exec_brightness:
  "exec as l = Some l' \<Longrightarrow> 0 \<le> brightness (mgr l) \<and> brightness (mgr l) \<le> 100 \<Longrightarrow>
   0 \<le> brightness (mgr l') \<and> brightness (mgr l') \<le> 100"
  by (rule exec_invariant [where P = "\<lambda>l. 0 \<le> brightness (mgr l) \<and> brightness (mgr l) \<le> 100"])
     (rule step_brightness)

text \<open>
  C9. \<open>SetBrightness v\<close> stores \<open>min 100 (max 0 v)\<close>: 150 becomes 100 and -5 becomes
  0. A new manager has brightness 80, and after any sequence of calls of the
  manager's methods and wake-ups of its loop the brightness is between 0 and 100.
\<close>

theorem SetBrightness_clamps:
  "brightness (SetBrightness v m) = min 100 (max 0 v)
   \<and> brightness (SetBrightness 150 m) = 100
   \<and> brightness (SetBrightness (- 5) m) = 0
   \<and> brightness (NewManager d) = 80
   \<and> (\<forall>as l. exec as (Run_init (NewManager d)) = Some l \<longrightarrow>
         0 \<le> brightness (mgr l) \<and> brightness (mgr l) \<le> 100)"
proof -
  have "0 \<le> brightness (mgr (Run_init (NewManager d)))
      \<and> brightness (mgr (Run_init (NewManager d))) \<le> 100"
    by (simp add: Run_init_def NewManager_def)
  then have "\<forall>as l. exec as (Run_init (NewManager d)) = Some l \<longrightarrow>
         0 \<le> brightness (mgr l) \<and> brightness (mgr l) \<le> 100"
    using exec_brightness by blast
  then show ?thesis
    by (simp add: SetBrightness_def NewManager_def Let_def)
qed

theorem SetBrightness_clamps_witness:
  "\<exists>l. exec [Call (CallSetBrightness 150), Call CallSkip, Wake (WakeSkip 7)]
          (Run_init (NewManager 0)) = Some l
       \<and> brightness (mgr l) = 100 \<and> 0 \<le> brightness (mgr l) \<and> brightness (mgr l) \<le> 100"
proof -
  obtain l where e: "exec [Call (CallSetBrightness 150), Call CallSkip, Wake (WakeSkip 7)]
      (Run_init (NewManager 0)) = Some l" and b: "brightness (mgr l) = 100"
    by (simp add: Run_init_def NewManager_def SetBrightness_def Skip_def try_send_def
        chan_cap_def advance_and_reset_def advance_def getCurrentDwell_def Let_def)
  from SetBrightness_clamps [of 150 "NewManager 0" 0] e b show ?thesis
    by blast
qed

subsection \<open>The current application\<close>

lemma Bex_set_nth: "(\<exists>a\<in>set xs. P a) = (\<exists>k<length xs. P (xs ! k))"
  by (metis in_set_conv_nth)

lemma exists_enabled_rotated:
  "(\<exists>a\<in>set as. Enabled a) = (\<exists>k<length as. Enabled (as ! ((c + k) mod length as)))"
proof -
  have "(\<exists>a\<in>set as. Enabled a) = (\<exists>a\<in>set (rotate c as). Enabled a)"
    by simp
  also have "\<dots> = (\<exists>k<length (rotate c as). Enabled (rotate c as ! k))"
    by (rule Bex_set_nth)
  also have "\<dots> = (\<exists>k<length as. Enabled (as ! ((c + k) mod length as)))"
    by (auto simp: nth_rotate)
  finally show ?thesis .
qed

lemma CurrentApp_loop_find:
  "i \<le> length (apps m) \<Longrightarrow>
   CurrentApp_loop m i = List.find Enabled (drop i (rotate (currentIndex m) (apps m)))"
proof (induction m i rule: CurrentApp_loop.induct)
  case (1 m i)
  show ?case
  proof (cases "i < length (apps m)")
    case True
    then have d: "drop i (rotate (currentIndex m) (apps m)) =
        apps m ! ((currentIndex m + i) mod length (apps m)) # drop (Suc i) (rotate (currentIndex m) (apps m))"
      by (simp add: Cons_nth_drop_Suc [symmetric] nth_rotate)
    show ?thesis
      using True 1
      by (subst CurrentApp_loop.simps) (simp add: d Let_def)
  next
    case False
    then show ?thesis
      using 1 by (subst CurrentApp_loop.simps) simp
  qed
qed

lemma CurrentApp_find: "CurrentApp m = List.find Enabled (rotate (currentIndex m) (apps m))"
  by (simp add: CurrentApp_def CurrentApp_loop_find)

lemma find_first_nth:
  "List.find P xs = Some a \<Longrightarrow>
   \<exists>k<length xs. a = xs ! k \<and> P a \<and> (\<forall>j<k. \<not> P (xs ! j))"
  by (auto simp: find_Some_iff)

text \<open>
  C3. \<open>CurrentApp\<close> returns the first enabled entry of the list read from the
  current index on, wrapping round, over at most \<open>len(apps)\<close> positions: the
  entry at \<open>(currentIndex + k) mod len\<close> for the least such \<open>k\<close>. It returns
  none exactly when no entry is enabled, which covers the empty list.
\<close>

theorem CurrentApp_first_enabled:
  "CurrentApp m = List.find Enabled (rotate (currentIndex m) (apps m))
   \<and> (CurrentApp m = None) = (\<forall>a\<in>set (apps m). \<not> Enabled a)
   \<and> (\<forall>a. CurrentApp m = Some a \<longrightarrow>
         Enabled a \<and>
         (\<exists>k<length (apps m).
            a = apps m ! ((currentIndex m + k) mod length (apps m)) \<and>
            (\<forall>j<k. \<not> Enabled (apps m ! ((currentIndex m + j) mod length (apps m))))))"
proof (intro conjI allI impI)
  show "CurrentApp m = List.find Enabled (rotate (currentIndex m) (apps m))"
    by (rule CurrentApp_find)
  show "(CurrentApp m = None) = (\<forall>a\<in>set (apps m). \<not> Enabled a)"
    by (auto simp: CurrentApp_find find_None_iff)
next
  fix a assume "CurrentApp m = Some a"
  then have f: "List.find Enabled (rotate (currentIndex m) (apps m)) = Some a"
    by (simp add: CurrentApp_find)
  from find_first_nth [OF f] obtain k where k: "k < length (apps m)"
    and a: "a = rotate (currentIndex m) (apps m) ! k" and e: "Enabled a"
    and n: "\<forall>j<k. \<not> Enabled (rotate (currentIndex m) (apps m) ! j)"
    by auto
  show "Enabled a" by (rule e)
  show "\<exists>k<length (apps m).
            a = apps m ! ((currentIndex m + k) mod length (apps m)) \<and>
            (\<forall>j<k. \<not> Enabled (apps m ! ((currentIndex m + j) mod length (apps m))))"
  proof (intro exI [of _ k] conjI allI impI)
    show "k < length (apps m)" by (rule k)
    show "a = apps m ! ((currentIndex m + k) mod length (apps m))"
      using a k by (simp add: nth_rotate)
    fix j assume "j < k"
    then show "\<not> Enabled (apps m ! ((currentIndex m + j) mod length (apps m)))"
      using n k by (auto simp: nth_rotate)
  qed
qed


theorem CurrentApp_first_enabled_witness:
  "CurrentApp rotation_at_b = Some app_c \<and> Enabled app_c
   \<and> (\<exists>k<length (apps rotation_at_b).
         app_c = apps rotation_at_b ! ((currentIndex rotation_at_b + k) mod length (apps rotation_at_b))
         \<and> (\<forall>j<k. \<not> Enabled (apps rotation_at_b
                 ! ((currentIndex rotation_at_b + j) mod length (apps rotation_at_b)))))"
proof -
  have a: "apps rotation_at_b = [app_a, app_b, app_c]" and i: "currentIndex rotation_at_b = 1"
    by (simp_all add: rotation_at_b_def rotation_abc_def SetApps_def notifyUpdate_def)
  have "rotate 1 [app_a, app_b, app_c] = [app_b, app_c, app_a]"
    by simp
  then have c: "CurrentApp rotation_at_b = Some app_c"
    by (simp add: CurrentApp_find a i app_b_def app_c_def)
  from CurrentApp_first_enabled [of rotation_at_b] c
  show ?thesis by blast
qed

subsection \<open>Advancing\<close>

lemma advance_loop_found:
  "\<exists>k. i \<le> k \<and> k < length as \<and> Enabled (as ! ((s + k + 1) mod length as)) \<Longrightarrow>
   \<exists>k. i \<le> k \<and> k < length as \<and> advance_loop as s i cur = (s + k + 1) mod length as
       \<and> Enabled (as ! ((s + k + 1) mod length as))
       \<and> (\<forall>j. i \<le> j \<and> j < k \<longrightarrow> \<not> Enabled (as ! ((s + j + 1) mod length as)))"
proof (induction as s i cur rule: advance_loop.induct)
  case (1 as s i cur)
  from "1.prems" obtain k0 where k0: "i \<le> k0" "k0 < length as"
      "Enabled (as ! ((s + k0 + 1) mod length as))"
    by blast
  then have il: "i < length as" by simp
  show ?case
  proof (cases "Enabled (as ! ((s + i + 1) mod length as))")
    case True
    have eq: "advance_loop as s i cur = (s + i + 1) mod length as"
      using il True by (subst advance_loop.simps) (simp add: Let_def)
    show ?thesis
      using il eq True by (intro exI [of _ i]) auto
  next
    case False
    have eq: "advance_loop as s i cur = advance_loop as s (i + 1) ((s + i + 1) mod length as)"
      using il False by (subst advance_loop.simps) (simp add: Let_def)
    from False k0(3) have "k0 \<noteq> i" by blast
    with k0(1) have "i + 1 \<le> k0" by simp
    with k0 have "\<exists>k. i + 1 \<le> k \<and> k < length as \<and> Enabled (as ! ((s + k + 1) mod length as))"
      by blast
    from "1.IH" [OF il refl False this] obtain k' where k':
      "i + 1 \<le> k'" "k' < length as"
      "advance_loop as s (i + 1) ((s + i + 1) mod length as) = (s + k' + 1) mod length as"
      "Enabled (as ! ((s + k' + 1) mod length as))"
      "\<forall>j. i + 1 \<le> j \<and> j < k' \<longrightarrow> \<not> Enabled (as ! ((s + j + 1) mod length as))"
      by blast
    have nj: "\<forall>j. i \<le> j \<and> j < k' \<longrightarrow> \<not> Enabled (as ! ((s + j + 1) mod length as))"
    proof (intro allI impI)
      fix j assume j: "i \<le> j \<and> j < k'"
      show "\<not> Enabled (as ! ((s + j + 1) mod length as))"
      proof (cases "j = i")
        case True then show ?thesis using False by simp
      next
        case False then show ?thesis using j k'(5) by simp
      qed
    qed
    from k'(1) have "i \<le> k'" by simp
    then show ?thesis
      using k'(2,3,4) nj eq by (intro exI [of _ k']) auto
  qed
qed

lemma advance_loop_none:
  "\<forall>k. i \<le> k \<and> k < length as \<longrightarrow> \<not> Enabled (as ! ((s + k + 1) mod length as)) \<Longrightarrow>
   advance_loop as s i cur = (if i < length as then s mod length as else cur)"
proof (induction as s i cur rule: advance_loop.induct)
  case (1 as s i cur)
  show ?case
  proof (cases "i < length as")
    case True
    then have ne: "\<not> Enabled (as ! ((s + i + 1) mod length as))"
      using "1.prems" by simp
    have "advance_loop as s (i + 1) ((s + i + 1) mod length as) =
        (if i + 1 < length as then s mod length as else (s + i + 1) mod length as)"
      using "1.IH" [OF True refl ne] "1.prems" by simp
    moreover have "\<not> i + 1 < length as \<Longrightarrow> (s + i + 1) mod length as = s mod length as"
    proof -
      assume "\<not> i + 1 < length as"
      with True have "i + 1 = length as" by simp
      then have "s + i + 1 = s + length as" by simp
      then have "(s + i + 1) mod length as = (s + length as) mod length as" by (rule arg_cong)
      then show ?thesis by (metis mod_add_self2)
    qed
    ultimately show ?thesis
      using True ne by (subst advance_loop.simps) (simp add: Let_def)
  next
    case False
    then show ?thesis by (subst advance_loop.simps) simp
  qed
qed

lemma advance_loop_less:
  "as \<noteq> [] \<Longrightarrow> advance_loop as s 0 cur < length as"
proof (cases "\<exists>k. 0 \<le> k \<and> k < length as \<and> Enabled (as ! ((s + k + 1) mod length as))")
  case True
  assume "as \<noteq> []"
  from advance_loop_found [OF True, of cur] show ?thesis
    using \<open>as \<noteq> []\<close> by auto
next
  case False
  assume "as \<noteq> []"
  from False have "\<forall>k. 0 \<le> k \<and> k < length as \<longrightarrow> \<not> Enabled (as ! ((s + k + 1) mod length as))"
    by blast
  from advance_loop_none [OF this, of cur] show ?thesis
    using \<open>as \<noteq> []\<close> by simp
qed

lemma exists_enabled_shifted:
  "(\<exists>k. 0 \<le> k \<and> k < length as \<and> Enabled (as ! ((s + k + 1) mod length as)))
     = (\<exists>a\<in>set as. Enabled a)"
proof -
  have "(\<exists>a\<in>set as. Enabled a)
      = (\<exists>k<length as. Enabled (as ! ((Suc s + k) mod length as)))"
    by (rule exists_enabled_rotated)
  then show ?thesis by simp
qed

lemma RemoveApp_loop_index_ok:
  "index_ok m \<Longrightarrow> index_ok (snd (RemoveApp_loop i_d i m))"
  by (induction i_d i m rule: RemoveApp_loop.induct)
     (subst RemoveApp_loop.simps, auto simp: Let_def notifyUpdate_def index_ok_def)

lemma advance_index_ok: "index_ok m \<Longrightarrow> index_ok (fst (advance m))"
  using advance_loop_less [of "apps m" "currentIndex m" "currentIndex m"]
  by (auto simp: advance_def Let_def index_ok_def)

lemma SetApps_index_ok: "index_ok (SetApps as m)"
  by (auto simp: SetApps_def notifyUpdate_def index_ok_def)

lemma AddApp_index_ok: "index_ok m \<Longrightarrow> index_ok (AddApp a m)"
  by (auto simp: AddApp_def notifyUpdate_def index_ok_def)

lemma do_call_index_ok: "do_call c m = Inr m' \<Longrightarrow> index_ok m \<Longrightarrow> index_ok m'"
proof (cases c)
  case (CallRemoveApp i_d)
  assume "do_call c m = Inr m'" "index_ok m"
  with CallRemoveApp show ?thesis
    by (auto simp: RemoveApp_def RemoveApp_loop_index_ok)
next
  case (CallSetApps as)
  assume "do_call c m = Inr m'" "index_ok m"
  with CallSetApps show ?thesis by (auto simp: SetApps_index_ok)
next
  case (CallAddApp a)
  assume "do_call c m = Inr m'" "index_ok m"
  with CallAddApp show ?thesis by (auto simp: AddApp_index_ok)
qed (auto simp: SetEnabled_def SetBrightness_def Skip_def PushNotification_def
       ClearNotifications_def OnAdvance_def Stop_def notifyUpdate_def Let_def
       index_ok_def split: if_splits)

lemma advance_and_reset_index_ok:
  "advance_and_reset now l = Inr l' \<Longrightarrow> index_ok (mgr l) \<Longrightarrow> index_ok (mgr l')"
  using advance_index_ok [of "mgr l"]
  by (auto simp: advance_and_reset_def Let_def split: sum.splits prod.splits)

lemma index_ok_chan [simp]:
  "index_ok (m\<lparr>skipCh := x\<rparr>) = index_ok m" "index_ok (m\<lparr>updateCh := y\<rparr>) = index_ok m"
  by (simp_all add: index_ok_def)

lemma Run_case_index_ok: "Run_case w l = Inr l' \<Longrightarrow> index_ok (mgr l) \<Longrightarrow> index_ok (mgr l')"
  by (cases w)
     (auto simp: Let_def dest: advance_and_reset_index_ok split: sum.splits if_splits)

lemma step_index_ok: "step a l = Some l' \<Longrightarrow> index_ok (mgr l) \<Longrightarrow> index_ok (mgr l')"
  by (cases a)
     (auto split: sum.splits if_splits dest: do_call_index_ok Run_case_index_ok)

lemma exec_index_ok: "exec as l = Some l' \<Longrightarrow> index_ok (mgr l) \<Longrightarrow> index_ok (mgr l')"
  by (rule exec_invariant [where P = "\<lambda>l. index_ok (mgr l)"]) (rule step_index_ok)

lemma reachable_index_ok:
  "exec as (Run_init (NewManager d)) = Some l \<Longrightarrow> index_ok (mgr l)"
  by (erule exec_index_ok) (simp add: Run_init_def NewManager_def index_ok_def)

lemma advance_none_enabled:
  assumes "\<forall>a\<in>set (apps m). \<not> Enabled a" and "apps m \<noteq> []"
  shows "currentIndex (fst (advance m)) = currentIndex m mod length (apps m)"
proof -
  from assms(1) have "\<not> (\<exists>k. 0 \<le> k \<and> k < length (apps m)
        \<and> Enabled (apps m ! ((currentIndex m + k + 1) mod length (apps m))))"
    by (simp only: exists_enabled_shifted) blast
  then have "\<forall>k. 0 \<le> k \<and> k < length (apps m)
        \<longrightarrow> \<not> Enabled (apps m ! ((currentIndex m + k + 1) mod length (apps m)))"
    by blast
  from advance_loop_none [OF this, of "currentIndex m"] assms(2) show ?thesis
    by (simp add: advance_def Let_def)
qed

lemma advance_some_enabled:
  assumes "\<exists>a\<in>set (apps m). Enabled a"
  shows "\<exists>k<length (apps m).
           currentIndex (fst (advance m)) = (currentIndex m + k + 1) mod length (apps m)
           \<and> Enabled (apps m ! ((currentIndex m + k + 1) mod length (apps m)))
           \<and> (\<forall>j<k. \<not> Enabled (apps m ! ((currentIndex m + j + 1) mod length (apps m))))"
proof -
  from assms have ne: "apps m \<noteq> []" by auto
  from assms have "\<exists>k. 0 \<le> k \<and> k < length (apps m)
        \<and> Enabled (apps m ! ((currentIndex m + k + 1) mod length (apps m)))"
    by (simp only: exists_enabled_shifted)
  from advance_loop_found [OF this, of "currentIndex m"] obtain k where
    k: "k < length (apps m)"
      "advance_loop (apps m) (currentIndex m) 0 (currentIndex m)
         = (currentIndex m + k + 1) mod length (apps m)"
      "Enabled (apps m ! ((currentIndex m + k + 1) mod length (apps m)))"
      "\<forall>j. 0 \<le> j \<and> j < k \<longrightarrow> \<not> Enabled (apps m ! ((currentIndex m + j + 1) mod length (apps m)))"
    by blast
  have "currentIndex (fst (advance m)) = (currentIndex m + k + 1) mod length (apps m)"
    using ne k(2) by (simp add: advance_def Let_def)
  with k(1,3,4) show ?thesis by blast
qed

text \<open>
  C5. \<open>advance\<close> changes nothing but the current index. When some entry is
  enabled, the new index is \<open>(currentIndex + k + 1) mod len\<close> for the least
  \<open>k < len\<close> at which that entry is enabled: the next enabled entry, wrapping
  round, found within \<open>len\<close> steps. When no entry is enabled the index is
  unchanged, for every index inside the list and so in every state an execution
  from a new manager reaches. On an empty list \<open>advance\<close> returns the state as it
  is and calls nothing.
\<close>

theorem advance_next_enabled:
  "fst (advance m) = m\<lparr>currentIndex := currentIndex (fst (advance m))\<rparr>
   \<and> ((\<exists>a\<in>set (apps m). Enabled a) \<longrightarrow>
        (\<exists>k<length (apps m).
           currentIndex (fst (advance m)) = (currentIndex m + k + 1) mod length (apps m)
           \<and> Enabled (apps m ! ((currentIndex m + k + 1) mod length (apps m)))
           \<and> (\<forall>j<k. \<not> Enabled (apps m ! ((currentIndex m + j + 1) mod length (apps m))))))
   \<and> ((\<forall>a\<in>set (apps m). \<not> Enabled a) \<and> currentIndex m < length (apps m) \<longrightarrow>
        currentIndex (fst (advance m)) = currentIndex m)
   \<and> (\<forall>as l. exec as (Run_init (NewManager d)) = Some l
          \<and> (\<forall>a\<in>set (apps (mgr l)). \<not> Enabled a) \<longrightarrow>
        currentIndex (fst (advance (mgr l))) = currentIndex (mgr l))
   \<and> (apps m = [] \<longrightarrow> advance m = (m, None))"
proof (intro conjI impI allI)
  show "fst (advance m) = m\<lparr>currentIndex := currentIndex (fst (advance m))\<rparr>"
    by (simp add: advance_def Let_def)
next
  assume "\<exists>a\<in>set (apps m). Enabled a"
  then show "\<exists>k<length (apps m).
           currentIndex (fst (advance m)) = (currentIndex m + k + 1) mod length (apps m)
           \<and> Enabled (apps m ! ((currentIndex m + k + 1) mod length (apps m)))
           \<and> (\<forall>j<k. \<not> Enabled (apps m ! ((currentIndex m + j + 1) mod length (apps m))))"
    by (rule advance_some_enabled)
next
  assume a: "(\<forall>a\<in>set (apps m). \<not> Enabled a) \<and> currentIndex m < length (apps m)"
  then have "apps m \<noteq> []" by auto
  with a advance_none_enabled [of m] show "currentIndex (fst (advance m)) = currentIndex m"
    by simp
next
  fix as l
  assume a: "exec as (Run_init (NewManager d)) = Some l
          \<and> (\<forall>a\<in>set (apps (mgr l)). \<not> Enabled a)"
  then have ok: "index_ok (mgr l)" by (blast intro: reachable_index_ok)
  show "currentIndex (fst (advance (mgr l))) = currentIndex (mgr l)"
  proof (cases "apps (mgr l) = []")
    case True
    then show ?thesis by (simp add: advance_def)
  next
    case False
    with ok have "currentIndex (mgr l) < length (apps (mgr l))"
      by (auto simp: index_ok_def)
    with a False advance_none_enabled [of "mgr l"] show ?thesis by simp
  qed
next
  assume "apps m = []"
  then show "advance m = (m, None)" by (simp add: advance_def)
qed


theorem advance_next_enabled_witness:
  "(\<exists>a\<in>set (apps rotation_abc). Enabled a)
   \<and> currentIndex rotation_abc = 0 \<and> currentIndex (fst (advance rotation_abc)) = 2
   \<and> (\<exists>k<length (apps rotation_abc).
         currentIndex (fst (advance rotation_abc))
           = (currentIndex rotation_abc + k + 1) mod length (apps rotation_abc)
         \<and> Enabled (apps rotation_abc ! ((currentIndex rotation_abc + k + 1) mod length (apps rotation_abc)))
         \<and> (\<forall>j<k. \<not> Enabled (apps rotation_abc
                 ! ((currentIndex rotation_abc + j + 1) mod length (apps rotation_abc)))))
   \<and> apps (SetApps [app_b] rotation_abc) = [app_b] \<and> \<not> Enabled app_b
   \<and> currentIndex (fst (advance (SetApps [app_b] rotation_abc)))
       = currentIndex (SetApps [app_b] rotation_abc)"
proof -
  have a: "apps rotation_abc = [app_a, app_b, app_c]" and i: "currentIndex rotation_abc = 0"
    by (simp_all add: rotation_abc_def SetApps_def notifyUpdate_def NewManager_def)
  have e: "\<exists>a\<in>set (apps rotation_abc). Enabled a"
    by (simp add: a app_a_def)
  have "rotate 1 [app_a, app_b, app_c] = [app_b, app_c, app_a]"
    by simp
  have v: "currentIndex (fst (advance rotation_abc)) = 2"
    by (simp add: advance_def Let_def a i advance_loop.simps [of _ _ 0] advance_loop.simps [of _ _ "Suc 0"]
        app_b_def app_c_def)
  have n: "(\<forall>a\<in>set (apps (SetApps [app_b] rotation_abc)). \<not> Enabled a)
      \<and> currentIndex (SetApps [app_b] rotation_abc) < length (apps (SetApps [app_b] rotation_abc))"
    by (simp add: SetApps_def notifyUpdate_def i app_b_def)
  from advance_next_enabled [of rotation_abc] e
  have k: "\<exists>k<length (apps rotation_abc).
         currentIndex (fst (advance rotation_abc))
           = (currentIndex rotation_abc + k + 1) mod length (apps rotation_abc)
         \<and> Enabled (apps rotation_abc ! ((currentIndex rotation_abc + k + 1) mod length (apps rotation_abc)))
         \<and> (\<forall>j<k. \<not> Enabled (apps rotation_abc
                 ! ((currentIndex rotation_abc + j + 1) mod length (apps rotation_abc))))"
    by blast
  from advance_next_enabled [of "SetApps [app_b] rotation_abc"] n
  have u: "currentIndex (fst (advance (SetApps [app_b] rotation_abc)))
       = currentIndex (SetApps [app_b] rotation_abc)"
    by blast
  have b: "apps (SetApps [app_b] rotation_abc) = [app_b]" "\<not> Enabled app_b"
    by (simp_all add: SetApps_def notifyUpdate_def app_b_def)
  from e i v k b u show ?thesis by blast
qed

subsection \<open>Replacing the list\<close>

text \<open>
  C8. \<open>SetApps\<close> replaces the list (and signals an update; nothing else changes).
  When the current index is at or beyond the new length it becomes 0, and
  \<open>CurrentApp\<close> then returns the first enabled entry of the new list read from
  its start; otherwise the index is kept.
\<close>

theorem SetApps_resets_index:
  "apps (SetApps as m) = as
   \<and> (currentIndex m \<ge> length as \<longrightarrow>
        currentIndex (SetApps as m) = 0 \<and> CurrentApp (SetApps as m) = List.find Enabled as)
   \<and> (currentIndex m < length as \<longrightarrow> currentIndex (SetApps as m) = currentIndex m)
   \<and> SetApps as m = m\<lparr>apps := as, currentIndex := currentIndex (SetApps as m),
                        updateCh := try_send (updateCh m)\<rparr>"
  by (simp add: CurrentApp_find) (simp add: SetApps_def notifyUpdate_def)


theorem SetApps_resets_index_witness:
  "currentIndex (rotation_abc\<lparr>currentIndex := 2\<rparr>) \<ge> length [app_b, app_c]
   \<and> currentIndex (SetApps [app_b, app_c] (rotation_abc\<lparr>currentIndex := 2\<rparr>)) = 0
   \<and> CurrentApp (SetApps [app_b, app_c] (rotation_abc\<lparr>currentIndex := 2\<rparr>)) = Some app_c"
proof -
  have h: "currentIndex (rotation_abc\<lparr>currentIndex := 2\<rparr>) \<ge> length [app_b, app_c]"
    by simp
  have f: "List.find Enabled [app_b, app_c] = Some app_c"
    by (simp add: app_b_def app_c_def)
  from SetApps_resets_index [of "[app_b, app_c]" "rotation_abc\<lparr>currentIndex := 2\<rparr>"] h f
  show ?thesis by simp
qed

subsection \<open>Skipping\<close>

lemma RemoveApp_loop_skipCh: "skipCh (snd (RemoveApp_loop i_d i m)) = skipCh m"
  by (induction i_d i m rule: RemoveApp_loop.induct)
     (subst RemoveApp_loop.simps, simp add: Let_def notifyUpdate_def)

lemma do_call_skipCh:
  "do_call c m = Inr m' \<Longrightarrow> c \<noteq> CallSkip \<Longrightarrow> skipCh m' = skipCh m"
  by (cases c)
     (auto simp: SetApps_def AddApp_def RemoveApp_def RemoveApp_loop_skipCh SetEnabled_def
        SetBrightness_def PushNotification_def ClearNotifications_def OnAdvance_def
        Stop_def notifyUpdate_def Let_def split: if_splits option.splits)

lemma advance_and_reset_skipCh:
  "advance_and_reset now l = Inr l' \<Longrightarrow> skipCh (mgr l') = skipCh (mgr l)"
  by (auto simp: advance_and_reset_def Let_def advance_def split: sum.splits prod.splits if_splits)

lemma Run_case_skipCh:
  "Run_case w l = Inr l' \<Longrightarrow> wake_ready w l \<Longrightarrow>
   skipCh (mgr l') + (if is_skip_wake (Wake w) then 1 else 0) = skipCh (mgr l)"
  by (cases w)
     (auto simp: Let_def dest!: advance_and_reset_skipCh split: sum.splits if_splits)

lemma step_skipCh:
  "step a l = Some l' \<Longrightarrow> a \<noteq> Call CallSkip \<Longrightarrow>
   skipCh (mgr l') + (if is_skip_wake a then 1 else 0) = skipCh (mgr l)"
proof (cases a)
  case (Call c)
  assume "step a l = Some l'" "a \<noteq> Call CallSkip"
  with Call show ?thesis
    by (auto split: sum.splits dest: do_call_skipCh)
next
  case (Wake w)
  assume "step a l = Some l'" "a \<noteq> Call CallSkip"
  with Wake have "wake_ready w l" "Run_case w l = Inr l'"
    by (auto split: sum.splits if_splits)
  from Run_case_skipCh [OF this(2,1)] Wake show ?thesis by simp
qed

lemma exec_skipCh:
  "exec as l = Some l' \<Longrightarrow> Call CallSkip \<notin> set as \<Longrightarrow>
   skipCh (mgr l') + early_advances as = skipCh (mgr l)"
proof (induction as arbitrary: l)
  case Nil
  then show ?case by (simp add: early_advances_def)
next
  case (Cons a as)
  from Cons.prems(1) obtain l1 where s: "step a l = Some l1" and e: "exec as l1 = Some l'"
    by (auto split: option.splits)
  from Cons.prems(2) have na: "a \<noteq> Call CallSkip" and nas: "Call CallSkip \<notin> set as"
    by auto
  from step_skipCh [OF s na] Cons.IH [OF e nas] show ?case
    by (cases "is_skip_wake a") (simp_all add: early_advances_def)
qed

lemma step_skipCh_le:
  "step a l = Some l' \<Longrightarrow> skipCh (mgr l) \<le> chan_cap \<Longrightarrow> skipCh (mgr l') \<le> chan_cap"
proof (cases "a = Call CallSkip")
  case True
  assume "step a l = Some l'" "skipCh (mgr l) \<le> chan_cap"
  with True show ?thesis by (auto simp: Skip_def try_send_def)
next
  case False
  assume s: "step a l = Some l'" and le: "skipCh (mgr l) \<le> chan_cap"
  from step_skipCh [OF s False] le show ?thesis by (simp split: if_splits)
qed

lemma exec_skipCh_le:
  "exec as l = Some l' \<Longrightarrow> skipCh (mgr l) \<le> chan_cap \<Longrightarrow> skipCh (mgr l') \<le> chan_cap"
  by (rule exec_invariant [where P = "\<lambda>l. skipCh (mgr l) \<le> chan_cap"]) (rule step_skipCh_le)

lemma exec_append:
  "exec (xs @ ys) l = (case exec xs l of None \<Rightarrow> None | Some l1 \<Rightarrow> exec ys l1)"
  by (induction xs arbitrary: l) (auto split: option.splits)

text \<open>What a wake-up on \<open>skipCh\<close> does: it takes the token and calls \<open>advance\<close> once.\<close>

lemma skip_wake_advances_once:
  assumes "step (Wake (WakeSkip now)) l = Some l'"
  shows "mgr l' = fst (advance ((mgr l)\<lparr>skipCh := skipCh (mgr l) - 1\<rparr>))
         \<and> spawned l' = spawned l @
              (case snd (advance ((mgr l)\<lparr>skipCh := skipCh (mgr l) - 1\<rparr>)) of
                 None \<Rightarrow> [] | Some a \<Rightarrow> [a])
         \<and> lastAdvance l' = now"
  using assms
  by (auto simp: advance_and_reset_def Let_def split: if_splits sum.splits prod.splits)

text \<open>
  While rotation is disabled a tick does nothing, so only a wake-up on \<open>skipCh\<close>
  starts a callback, and it starts at most one.
\<close>

lemma RemoveApp_loop_enabled: "enabled (snd (RemoveApp_loop i_d i m)) = enabled m"
  by (induction i_d i m rule: RemoveApp_loop.induct)
     (subst RemoveApp_loop.simps, simp add: Let_def notifyUpdate_def)

lemma do_call_enabled:
  "do_call c m = Inr m' \<Longrightarrow> c \<noteq> CallSetEnabled True \<Longrightarrow> \<not> enabled m \<Longrightarrow> \<not> enabled m'"
  by (cases c)
     (auto simp: SetApps_def AddApp_def RemoveApp_def RemoveApp_loop_enabled SetEnabled_def
        SetBrightness_def Skip_def PushNotification_def ClearNotifications_def OnAdvance_def
        Stop_def notifyUpdate_def Let_def split: if_splits option.splits)

lemma advance_and_reset_spawned:
  "advance_and_reset now l = Inr l' \<Longrightarrow>
   enabled (mgr l') = enabled (mgr l) \<and> length (spawned l') \<le> length (spawned l) + 1"
  by (auto simp: advance_and_reset_def Let_def advance_def
      split: sum.splits prod.splits if_splits option.splits)

lemma Run_case_spawned:
  "Run_case w l = Inr l' \<Longrightarrow> \<not> enabled (mgr l) \<Longrightarrow>
   \<not> enabled (mgr l')
   \<and> length (spawned l') \<le> length (spawned l) + (if is_skip_wake (Wake w) then 1 else 0)"
  by (cases w)
     (auto simp: Let_def IsEnabled_def dest!: advance_and_reset_spawned
        split: sum.splits if_splits)

lemma step_spawned:
  assumes "step a l = Some l'" and "\<not> enabled (mgr l)" and "a \<noteq> Call (CallSetEnabled True)"
  shows "\<not> enabled (mgr l')
         \<and> length (spawned l') \<le> length (spawned l) + (if is_skip_wake a then 1 else 0)"
proof (cases a)
  case (Call c)
  with assms show ?thesis
    by (auto split: sum.splits dest: do_call_enabled)
next
  case (Wake w)
  with assms(1) have "Run_case w l = Inr l'"
    by (auto split: sum.splits if_splits)
  from Run_case_spawned [OF this assms(2)] Wake show ?thesis by simp
qed

lemma exec_spawned:
  "exec as l = Some l' \<Longrightarrow> \<not> enabled (mgr l) \<Longrightarrow> Call (CallSetEnabled True) \<notin> set as \<Longrightarrow>
   \<not> enabled (mgr l') \<and> length (spawned l') \<le> length (spawned l) + early_advances as"
proof (induction as arbitrary: l)
  case Nil
  then show ?case by (simp add: early_advances_def)
next
  case (Cons a as)
  from Cons.prems(1) obtain l1 where s: "step a l = Some l1" and e: "exec as l1 = Some l'"
    by (auto split: option.splits)
  from Cons.prems(3) have na: "a \<noteq> Call (CallSetEnabled True)"
    and nas: "Call (CallSetEnabled True) \<notin> set as"
    by auto
  from step_spawned [OF s Cons.prems(2) na]
  have d1: "\<not> enabled (mgr l1)"
    and s1: "length (spawned l1) \<le> length (spawned l) + (if is_skip_wake a then 1 else 0)"
    by simp_all
  from Cons.IH [OF e d1 nas]
  have d2: "\<not> enabled (mgr l')"
    and s2: "length (spawned l') \<le> length (spawned l1) + early_advances as"
    by simp_all
  from s1 s2 have "length (spawned l') \<le> length (spawned l) + early_advances (a # as)"
    by (cases "is_skip_wake a") (simp_all add: early_advances_def)
  with d2 show ?case by simp
qed

text \<open>
  Whether rotation is enabled or not, a step starts at most one callback, and only
  a wake-up on \<open>skipCh\<close> or on the ticker starts any.
\<close>

lemma Run_case_spawned_any:
  "Run_case w l = Inr l' \<Longrightarrow>
   length (spawned l') \<le> length (spawned l)
      + (if is_skip_wake (Wake w) then 1 else 0) + (if is_tick_wake (Wake w) then 1 else 0)"
  by (cases w)
     (auto simp: Let_def dest!: advance_and_reset_spawned split: sum.splits if_splits)

lemma step_spawned_any:
  assumes "step a l = Some l'"
  shows "length (spawned l') \<le> length (spawned l)
      + (if is_skip_wake a then 1 else 0) + (if is_tick_wake a then 1 else 0)"
proof (cases a)
  case (Call c)
  with assms show ?thesis by (auto split: sum.splits)
next
  case (Wake w)
  with assms have "Run_case w l = Inr l'"
    by (auto split: sum.splits if_splits)
  from Run_case_spawned_any [OF this] Wake show ?thesis by simp
qed

lemma exec_spawned_any:
  "exec as l = Some l' \<Longrightarrow>
   length (spawned l') \<le> length (spawned l) + early_advances as + tick_wakes as"
proof (induction as arbitrary: l)
  case Nil
  then show ?case by (simp add: early_advances_def tick_wakes_def)
next
  case (Cons a as)
  from Cons.prems obtain l1 where s: "step a l = Some l1" and e: "exec as l1 = Some l'"
    by (auto split: option.splits)
  from step_spawned_any [OF s] Cons.IH [OF e] show ?case
    by (cases "is_skip_wake a"; cases "is_tick_wake a")
       (simp_all add: early_advances_def tick_wakes_def)
qed

text \<open>
  C7. \<open>Skip\<close> on a state whose \<open>skipCh\<close> already holds a token leaves the state as
  it is, and two \<open>Skip\<close>s are one. In every state an execution from a new
  manager reaches, at most one skip is pending. So in any execution, over any
  stretch without a \<open>Skip\<close> call the loop wakes on \<open>skipCh\<close> at most once, however
  many \<open>Skip\<close>s, adjacent or not, came before the stretch. Each such wake-up
  calls \<open>advance\<close> exactly once: the manager afterwards is the result of one
  \<open>advance\<close> on the manager with the token taken, and the callbacks started grow
  by that \<open>advance\<close>'s one. Over the stretch the callbacks started are at
  most one more than the ticks the loop took, and with rotation disabled, when no
  tick advances, at most one.
\<close>

theorem Skip_coalesces:
  "(0 < skipCh m \<longrightarrow> Skip m = m)
   \<and> Skip (Skip m) = Skip m
   \<and> (\<forall>as l. exec as (Run_init (NewManager d)) = Some l \<longrightarrow> skipCh (mgr l) \<le> 1)
   \<and> (\<forall>pre as l. exec (pre @ as) (Run_init (NewManager d)) = Some l
          \<and> Call CallSkip \<notin> set as \<longrightarrow> early_advances as \<le> 1)
   \<and> (\<forall>now l l'. step (Wake (WakeSkip now)) l = Some l' \<longrightarrow>
          mgr l' = fst (advance ((mgr l)\<lparr>skipCh := skipCh (mgr l) - 1\<rparr>))
          \<and> spawned l' = spawned l @
               (case snd (advance ((mgr l)\<lparr>skipCh := skipCh (mgr l) - 1\<rparr>)) of
                  None \<Rightarrow> [] | Some a \<Rightarrow> [a])
          \<and> lastAdvance l' = now)
   \<and> (\<forall>pre as l1 l. exec pre (Run_init (NewManager d)) = Some l1 \<and> exec as l1 = Some l
          \<and> Call CallSkip \<notin> set as \<and> \<not> enabled (mgr l1)
          \<and> Call (CallSetEnabled True) \<notin> set as \<longrightarrow>
          length (spawned l) \<le> length (spawned l1) + 1)
   \<and> (\<forall>pre as l1 l. exec pre (Run_init (NewManager d)) = Some l1 \<and> exec as l1 = Some l
          \<and> Call CallSkip \<notin> set as \<longrightarrow>
          length (spawned l) \<le> length (spawned l1) + 1 + tick_wakes as)"
proof (intro conjI allI impI)
  assume "0 < skipCh m"
  then show "Skip m = m" by (simp add: Skip_def try_send_def chan_cap_def)
next
  show "Skip (Skip m) = Skip m" by (simp add: Skip_def try_send_def chan_cap_def)
next
  fix as l assume "exec as (Run_init (NewManager d)) = Some l"
  from exec_skipCh_le [OF this] show "skipCh (mgr l) \<le> 1"
    by (simp add: Run_init_def NewManager_def chan_cap_def)
next
  fix pre as l
  assume a: "exec (pre @ as) (Run_init (NewManager d)) = Some l \<and> Call CallSkip \<notin> set as"
  then obtain l1 where p: "exec pre (Run_init (NewManager d)) = Some l1"
    and e: "exec as l1 = Some l"
    by (auto simp: exec_append split: option.splits)
  from exec_skipCh_le [OF p] have "skipCh (mgr l1) \<le> 1"
    by (simp add: Run_init_def NewManager_def chan_cap_def)
  with exec_skipCh [OF e] a show "early_advances as \<le> 1" by simp
next
  fix now l l'
  assume s: "step (Wake (WakeSkip now)) l = Some l'"
  from skip_wake_advances_once [OF s]
  show "mgr l' = fst (advance ((mgr l)\<lparr>skipCh := skipCh (mgr l) - 1\<rparr>))"
    and "spawned l' = spawned l @
               (case snd (advance ((mgr l)\<lparr>skipCh := skipCh (mgr l) - 1\<rparr>)) of
                  None \<Rightarrow> [] | Some a \<Rightarrow> [a])"
    and "lastAdvance l' = now"
    by simp_all
next
  fix pre as l1 l
  assume a: "exec pre (Run_init (NewManager d)) = Some l1 \<and> exec as l1 = Some l
          \<and> Call CallSkip \<notin> set as \<and> \<not> enabled (mgr l1)
          \<and> Call (CallSetEnabled True) \<notin> set as"
  then have p: "exec pre (Run_init (NewManager d)) = Some l1" and e: "exec as l1 = Some l"
    and ns: "Call CallSkip \<notin> set as" and dis: "\<not> enabled (mgr l1)"
    and ne: "Call (CallSetEnabled True) \<notin> set as"
    by simp_all
  from exec_skipCh_le [OF p] have "skipCh (mgr l1) \<le> 1"
    by (simp add: Run_init_def NewManager_def chan_cap_def)
  with exec_skipCh [OF e ns] have "early_advances as \<le> 1" by simp
  with exec_spawned [OF e dis ne] show "length (spawned l) \<le> length (spawned l1) + 1"
    by simp
next
  fix pre as l1 l
  assume a: "exec pre (Run_init (NewManager d)) = Some l1 \<and> exec as l1 = Some l
          \<and> Call CallSkip \<notin> set as"
  then have p: "exec pre (Run_init (NewManager d)) = Some l1" and e: "exec as l1 = Some l"
    and ns: "Call CallSkip \<notin> set as"
    by simp_all
  from exec_skipCh_le [OF p] have "skipCh (mgr l1) \<le> 1"
    by (simp add: Run_init_def NewManager_def chan_cap_def)
  with exec_skipCh [OF e ns] have "early_advances as \<le> 1" by simp
  with exec_spawned_any [OF e]
  show "length (spawned l) \<le> length (spawned l1) + 1 + tick_wakes as"
    by simp
qed

theorem Skip_coalesces_witness:
  "(\<exists>l1 l. exec two_skips (Run_init (NewManager 0)) = Some l1 \<and> exec wakes_after l1 = Some l
       \<and> \<not> enabled (mgr l1) \<and> skipCh (mgr l1) = 1 \<and> currentIndex (mgr l1) = 0
       \<and> spawned l1 = [] \<and> currentIndex (mgr l) = 2 \<and> spawned l = [app_c]
       \<and> length (spawned l) \<le> length (spawned l1) + 1)
   \<and> Call CallSkip \<notin> set wakes_after \<and> Call (CallSetEnabled True) \<notin> set wakes_after
   \<and> early_advances wakes_after = 1 \<and> early_advances wakes_after \<le> 1
   \<and> exec (two_skips @ [Wake (WakeSkip 3), Wake (WakeSkip 4)]) (Run_init (NewManager 0)) = None
   \<and> 0 < skipCh (Skip (NewManager 0)) \<and> Skip (Skip (NewManager 0)) = Skip (NewManager 0)"
proof -
  have e: "\<exists>l1 l. exec two_skips (Run_init (NewManager 0)) = Some l1 \<and> exec wakes_after l1 = Some l
       \<and> \<not> enabled (mgr l1) \<and> skipCh (mgr l1) = 1 \<and> currentIndex (mgr l1) = 0
       \<and> spawned l1 = [] \<and> currentIndex (mgr l) = 2 \<and> spawned l = [app_c]"
    by (simp add: two_skips_def wakes_after_def Run_init_def NewManager_def SetApps_def
        OnAdvance_def SetEnabled_def SetBrightness_def Skip_def notifyUpdate_def try_send_def
        chan_cap_def advance_and_reset_def advance_def getCurrentDwell_def IsEnabled_def Let_def
        advance_loop.simps [of _ _ 0] advance_loop.simps [of _ _ "Suc 0"]
        app_a_def app_b_def app_c_def)
  then obtain l1 l where e1: "exec two_skips (Run_init (NewManager 0)) = Some l1"
    and e2: "exec wakes_after l1 = Some l" and d: "\<not> enabled (mgr l1)"
    and r: "skipCh (mgr l1) = 1" "currentIndex (mgr l1) = 0" "spawned l1 = []"
      "currentIndex (mgr l) = 2" "spawned l = [app_c]"
    by blast
  have n: "Call CallSkip \<notin> set wakes_after" "Call (CallSetEnabled True) \<notin> set wakes_after"
    by (simp_all add: wakes_after_def)
  have c: "early_advances wakes_after = 1"
    by (simp add: early_advances_def wakes_after_def)
  have x: "exec (two_skips @ [Wake (WakeSkip 3), Wake (WakeSkip 4)]) (Run_init (NewManager 0)) = None"
    by (simp add: two_skips_def Run_init_def NewManager_def SetApps_def
        OnAdvance_def SetEnabled_def SetBrightness_def Skip_def notifyUpdate_def try_send_def
        chan_cap_def advance_and_reset_def advance_def getCurrentDwell_def IsEnabled_def Let_def
        advance_loop.simps [of _ _ 0] advance_loop.simps [of _ _ "Suc 0"]
        app_a_def app_b_def app_c_def)
  have p: "0 < skipCh (Skip (NewManager 0))"
    by (simp add: Skip_def try_send_def chan_cap_def NewManager_def)
  from Skip_coalesces [of "Skip (NewManager 0)" 0] p
  have s: "Skip (Skip (NewManager 0)) = Skip (NewManager 0)" by blast
  from Skip_coalesces [of "Skip (NewManager 0)" 0] e1 e2 n d
  have b: "length (spawned l) \<le> length (spawned l1) + 1" by blast
  from c have c1: "early_advances wakes_after \<le> 1" by simp
  from e1 e2 d r b have "\<exists>l1 l. exec two_skips (Run_init (NewManager 0)) = Some l1 \<and> exec wakes_after l1 = Some l
       \<and> \<not> enabled (mgr l1) \<and> skipCh (mgr l1) = 1 \<and> currentIndex (mgr l1) = 0
       \<and> spawned l1 = [] \<and> currentIndex (mgr l) = 2 \<and> spawned l = [app_c]
       \<and> length (spawned l) \<le> length (spawned l1) + 1"
    by blast
  with n c c1 x p s show ?thesis by blast
qed

subsection \<open>The notification queue\<close>

lemma PushNotification_loop_eq:
  "i \<le> length q \<Longrightarrow>
   PushNotification_loop n q i =
     (if \<forall>e\<in>set (drop i q). \<not> nPriority n > nPriority e then None
      else Some (take i q @ takeWhile (\<lambda>e. \<not> nPriority n > nPriority e) (drop i q)
                 @ [n] @ dropWhile (\<lambda>e. \<not> nPriority n > nPriority e) (drop i q)))"
proof (induction n q i rule: PushNotification_loop.induct)
  case (1 n q i)
  show ?case
  proof (cases "i < length q")
    case False
    then show ?thesis by (subst PushNotification_loop.simps) simp
  next
    case True
    then have d: "drop i q = q ! i # drop (Suc i) q"
      by (simp add: Cons_nth_drop_Suc)
    show ?thesis
    proof (cases "nPriority n > nPriority (q ! i)")
      case gt: True
      then show ?thesis
        using True by (subst PushNotification_loop.simps) (simp add: d)
    next
      case ngt: False
      have t: "take (Suc i) q = take i q @ [q ! i]"
        using True by (simp add: take_Suc_conv_app_nth)
      from True have "i + 1 \<le> length q" by simp
      from "1.IH" [OF True ngt this] True ngt show ?thesis
        by (subst PushNotification_loop.simps) (simp add: d t)
    qed
  qed
qed

lemma PushNotification_queue:
  "notifyQueue (PushNotification n now m) =
     takeWhile (\<lambda>e. \<not> nPriority n > nPriority e) (notifyQueue m)
     @ [n\<lparr>nCreated := now\<rparr>]
     @ dropWhile (\<lambda>e. \<not> nPriority n > nPriority e) (notifyQueue m)"
proof (cases "\<forall>e\<in>set (notifyQueue m). \<not> nPriority n > nPriority e")
  case True
  then have tw: "takeWhile (\<lambda>e. \<not> nPriority n > nPriority e) (notifyQueue m) = notifyQueue m"
    and dw: "dropWhile (\<lambda>e. \<not> nPriority n > nPriority e) (notifyQueue m) = []"
    by simp_all
  show ?thesis
    unfolding tw dw using True
    by (simp add: PushNotification_def PushNotification_loop_eq notifyUpdate_def Let_def)
next
  case False
  have "PushNotification_loop (n\<lparr>nCreated := now\<rparr>) (notifyQueue m) 0 =
      Some (takeWhile (\<lambda>e. \<not> nPriority n > nPriority e) (notifyQueue m)
     @ [n\<lparr>nCreated := now\<rparr>]
     @ dropWhile (\<lambda>e. \<not> nPriority n > nPriority e) (notifyQueue m))"
    using False PushNotification_loop_eq [of 0 "notifyQueue m" "n\<lparr>nCreated := now\<rparr>"]
    by auto
  then show ?thesis
    by (simp add: PushNotification_def notifyUpdate_def Let_def)
qed

lemma sorted_insert_desc:
  "sorted_wrt (\<lambda>a b. nPriority a \<ge> nPriority b) q \<Longrightarrow>
   sorted_wrt (\<lambda>a b. nPriority a \<ge> nPriority b)
     (takeWhile (\<lambda>e. \<not> p > nPriority e) q @ [x\<lparr>nPriority := p\<rparr>]
      @ dropWhile (\<lambda>e. \<not> p > nPriority e) q)"
  by (induction q) (auto simp: sorted_wrt_append dest: set_takeWhileD set_dropWhileD)


lemma filter_takeWhile_dropWhile:
  "filter F (takeWhile P q) @ filter F (dropWhile P q) = filter F q"
  by (simp only: filter_append [symmetric] takeWhile_dropWhile_id)

lemma dropWhile_lower:
  "sorted_wrt (\<lambda>a b. nPriority a \<ge> nPriority b) q \<Longrightarrow>
   e \<in> set (dropWhile (\<lambda>e. \<not> p > nPriority e) q) \<Longrightarrow> nPriority e < p"
  by (induction q) (auto split: if_splits)

lemma filter_dropWhile_lower:
  assumes "sorted_wrt (\<lambda>a b. nPriority a \<ge> nPriority b) q" "nPriority x = r"
  shows "filter (\<lambda>e. nPriority e = r) (dropWhile (\<lambda>e. \<not> nPriority x > nPriority e) q) = []"
proof -
  have "\<forall>e\<in>set (dropWhile (\<lambda>e. \<not> nPriority x > nPriority e) q). nPriority e \<noteq> r"
  proof
    fix e assume "e \<in> set (dropWhile (\<lambda>e. \<not> nPriority x > nPriority e) q)"
    from dropWhile_lower [OF assms(1) this] assms(2) show "nPriority e \<noteq> r" by simp
  qed
  then show ?thesis
    by (simp only: filter_empty_conv)
qed

lemma filter_insert_desc:
  assumes "sorted_wrt (\<lambda>a b. nPriority a \<ge> nPriority b) q"
  shows "filter (\<lambda>e. nPriority e = r)
           (takeWhile (\<lambda>e. \<not> nPriority x > nPriority e) q @ [x]
            @ dropWhile (\<lambda>e. \<not> nPriority x > nPriority e) q)
         = filter (\<lambda>e. nPriority e = r) q @ filter (\<lambda>e. nPriority e = r) [x]"
proof (cases "nPriority x = r")
  case True
  have "filter (\<lambda>e. nPriority e = r)
           (takeWhile (\<lambda>e. \<not> nPriority x > nPriority e) q @ [x]
            @ dropWhile (\<lambda>e. \<not> nPriority x > nPriority e) q)
        = (filter (\<lambda>e. nPriority e = r) (takeWhile (\<lambda>e. \<not> nPriority x > nPriority e) q)
            @ filter (\<lambda>e. nPriority e = r) (dropWhile (\<lambda>e. \<not> nPriority x > nPriority e) q))
          @ filter (\<lambda>e. nPriority e = r) [x]"
    by (simp only: filter_append filter_dropWhile_lower [OF assms True] append_Nil2 append_Nil)
  then show ?thesis
    by (simp only: filter_takeWhile_dropWhile)
next
  case False
  then have e: "filter (\<lambda>e. nPriority e = r) [x] = []" by simp
  have "filter (\<lambda>e. nPriority e = r)
           (takeWhile (\<lambda>e. \<not> nPriority x > nPriority e) q @ [x]
            @ dropWhile (\<lambda>e. \<not> nPriority x > nPriority e) q)
        = (filter (\<lambda>e. nPriority e = r) (takeWhile (\<lambda>e. \<not> nPriority x > nPriority e) q)
            @ filter (\<lambda>e. nPriority e = r) (dropWhile (\<lambda>e. \<not> nPriority x > nPriority e) q))
          @ filter (\<lambda>e. nPriority e = r) [x]"
    by (simp only: filter_append e append_Nil2 append_Nil)
  then show ?thesis
    by (simp only: filter_takeWhile_dropWhile)
qed

lemma PushNotification_sorted:
  "sorted_wrt (\<lambda>a b. nPriority a \<ge> nPriority b) (notifyQueue m) \<Longrightarrow>
   sorted_wrt (\<lambda>a b. nPriority a \<ge> nPriority b) (notifyQueue (PushNotification n now m))"
  using sorted_insert_desc [of "notifyQueue m" "nPriority n" "n\<lparr>nCreated := now\<rparr>"]
  by (simp add: PushNotification_queue)

lemma PushNotification_filter:
  "sorted_wrt (\<lambda>a b. nPriority a \<ge> nPriority b) (notifyQueue m) \<Longrightarrow>
   filter (\<lambda>e. nPriority e = r) (notifyQueue (PushNotification n now m))
     = filter (\<lambda>e. nPriority e = r) (notifyQueue m)
       @ filter (\<lambda>e. nPriority e = r) [n\<lparr>nCreated := now\<rparr>]"
  using filter_insert_desc [of "notifyQueue m" r "n\<lparr>nCreated := now\<rparr>"]
  by (simp add: PushNotification_queue)

lemma push_all_sorted:
  "sorted_wrt (\<lambda>a b. nPriority a \<ge> nPriority b) (notifyQueue m) \<Longrightarrow>
   sorted_wrt (\<lambda>a b. nPriority a \<ge> nPriority b) (notifyQueue (push_all ps m))"
  by (induction ps m rule: push_all.induct) (simp_all add: PushNotification_sorted)

lemma push_all_filter:
  "sorted_wrt (\<lambda>a b. nPriority a \<ge> nPriority b) (notifyQueue m) \<Longrightarrow>
   filter (\<lambda>e. nPriority e = r) (notifyQueue (push_all ps m))
     = filter (\<lambda>e. nPriority e = r) (notifyQueue m)
       @ filter (\<lambda>e. nPriority e = r) (stamped ps)"
proof (induction ps m rule: push_all.induct)
  case (1 m)
  then show ?case by (simp add: stamped_def)
next
  case (2 n now ps m)
  from PushNotification_sorted [OF "2.prems"]
  have "sorted_wrt (\<lambda>a b. nPriority a \<ge> nPriority b) (notifyQueue (PushNotification n now m))" .
  from "2.IH" [OF this] PushNotification_filter [OF "2.prems", of r n now] show ?case
    by (simp add: stamped_def)
qed

text \<open>
  C4. \<open>PushNotification\<close> puts the entry, stamped with the time, right before
  the first queued entry of strictly lower priority, and at the end when there is
  none: after the longest prefix of entries whose priority is not lower than its
  own. So after any sequence of pushes on a new manager the queue is in
  descending order of priority, and for each priority the queued entries of that
  priority are the pushed ones in the order they were pushed.
\<close>

theorem PushNotification_priority_order:
  "notifyQueue (PushNotification n now m) =
     takeWhile (\<lambda>e. \<not> nPriority n > nPriority e) (notifyQueue m)
     @ [n\<lparr>nCreated := now\<rparr>]
     @ dropWhile (\<lambda>e. \<not> nPriority n > nPriority e) (notifyQueue m)
   \<and> sorted_wrt (\<lambda>a b. nPriority a \<ge> nPriority b) (notifyQueue (push_all ps (NewManager d)))
   \<and> filter (\<lambda>e. nPriority e = r) (notifyQueue (push_all ps (NewManager d)))
       = filter (\<lambda>e. nPriority e = r) (stamped ps)"
proof -
  have s: "sorted_wrt (\<lambda>a b. nPriority a \<ge> nPriority b) (notifyQueue (NewManager d))"
    by (simp add: NewManager_def)
  from push_all_sorted [OF s] push_all_filter [OF s, of r ps] PushNotification_queue [of n now m]
  show ?thesis by (simp add: NewManager_def)
qed

theorem PushNotification_priority_order_witness:
  "notifyQueue (push_all pushes_lnhn (NewManager 0))
     = [(notif ''h'' PriorityHigh)\<lparr>nCreated := 3\<rparr>, (notif ''n1'' PriorityNormal)\<lparr>nCreated := 2\<rparr>,
        (notif ''n2'' PriorityNormal)\<lparr>nCreated := 4\<rparr>, (notif ''l'' PriorityLow)\<lparr>nCreated := 1\<rparr>]
   \<and> filter (\<lambda>e. nPriority e = PriorityNormal) (notifyQueue (push_all pushes_lnhn (NewManager 0)))
     = [(notif ''n1'' PriorityNormal)\<lparr>nCreated := 2\<rparr>, (notif ''n2'' PriorityNormal)\<lparr>nCreated := 4\<rparr>]"
proof -
  have q: "notifyQueue (push_all pushes_lnhn (NewManager 0))
     = [(notif ''h'' PriorityHigh)\<lparr>nCreated := 3\<rparr>, (notif ''n1'' PriorityNormal)\<lparr>nCreated := 2\<rparr>,
        (notif ''n2'' PriorityNormal)\<lparr>nCreated := 4\<rparr>, (notif ''l'' PriorityLow)\<lparr>nCreated := 1\<rparr>]"
    by (simp add: pushes_lnhn_def PushNotification_def PushNotification_loop.simps
        notifyUpdate_def Let_def NewManager_def notif_def PriorityLow_def PriorityNormal_def
        PriorityHigh_def)
  have f: "filter (\<lambda>e. nPriority e = PriorityNormal) (stamped pushes_lnhn)
     = [(notif ''n1'' PriorityNormal)\<lparr>nCreated := 2\<rparr>, (notif ''n2'' PriorityNormal)\<lparr>nCreated := 4\<rparr>]"
    by (simp add: pushes_lnhn_def stamped_def notif_def PriorityLow_def PriorityNormal_def
        PriorityHigh_def)
  from PushNotification_priority_order [of "notif ''x'' 0" 0 "NewManager 0" pushes_lnhn 0 PriorityNormal]
  have g: "filter (\<lambda>e. nPriority e = PriorityNormal) (notifyQueue (push_all pushes_lnhn (NewManager 0)))
      = filter (\<lambda>e. nPriority e = PriorityNormal) (stamped pushes_lnhn)"
    by blast
  from g f have "filter (\<lambda>e. nPriority e = PriorityNormal) (notifyQueue (push_all pushes_lnhn (NewManager 0)))
     = [(notif ''n1'' PriorityNormal)\<lparr>nCreated := 2\<rparr>, (notif ''n2'' PriorityNormal)\<lparr>nCreated := 4\<rparr>]"
    by (rule trans)
  with q show ?thesis by (rule conjI)
qed

subsection \<open>The entry handed to the advance callback\<close>

text \<open>
  When some entry is enabled, the entry \<open>advance\<close> hands to the callback is
  enabled.
\<close>

lemma advance_callback_enabled:
  assumes "\<exists>a\<in>set (apps m). Enabled a" and "snd (advance m) = Some a"
  shows "Enabled a"
proof -
  from assms(1) have ne: "apps m \<noteq> []" by auto
  from advance_some_enabled [OF assms(1)] obtain k where
    "currentIndex (fst (advance m)) = (currentIndex m + k + 1) mod length (apps m)"
    "Enabled (apps m ! ((currentIndex m + k + 1) mod length (apps m)))"
    by blast
  then have "Enabled (apps m ! currentIndex (fst (advance m)))" by simp
  with assms(2) ne show ?thesis
    by (auto simp: advance_def Let_def split: if_splits)
qed

text \<open>
  C2. The entry \<open>advance\<close> hands to the registered callback is claimed to be
  enabled always. On a rotation whose only entry is disabled, \<open>advance\<close> ends its
  search on that entry and hands it to the callback, while \<open>CurrentApp\<close> returns
  none for the same state; the state is reached by \<open>SetApps\<close>, \<open>OnAdvance\<close>, one
  \<open>Skip\<close> and the loop's wake-up.
\<close>

theorem advance_passes_disabled_entry:
  "advance rotation_only_b = (rotation_only_b, Some app_b) \<and> \<not> Enabled app_b
   \<and> CurrentApp rotation_only_b = None
   \<and> (\<exists>l. exec skip_only_b (Run_init (NewManager (5000 * Millisecond))) = Some l
          \<and> spawned l = [app_b])"
proof -
  have a: "advance rotation_only_b = (rotation_only_b, Some app_b)"
    by (simp add: advance_def rotation_only_b_def OnAdvance_def SetApps_def notifyUpdate_def
        NewManager_def Let_def advance_loop.simps [of _ _ 0] advance_loop.simps [of _ _ "Suc 0"]
        app_b_def)
  have b: "\<not> Enabled app_b" by (simp add: app_b_def)
  have c: "CurrentApp rotation_only_b = None"
    by (simp add: CurrentApp_find rotation_only_b_def OnAdvance_def SetApps_def notifyUpdate_def
        app_b_def)
  have e: "\<exists>l. exec skip_only_b (Run_init (NewManager (5000 * Millisecond))) = Some l
          \<and> spawned l = [app_b]"
    by (simp add: skip_only_b_def Run_init_def NewManager_def SetApps_def OnAdvance_def Skip_def
        notifyUpdate_def try_send_def chan_cap_def advance_and_reset_def advance_def
        getCurrentDwell_def Let_def advance_loop.simps [of _ _ 0]
        advance_loop.simps [of _ _ "Suc 0"] app_b_def Millisecond_def)
  from a b c e show ?thesis by blast
qed

subsection \<open>The display: brightness\<close>

text \<open>
  C10. \<open>Display.SetBrightness v\<close> hands \<open>v\<close> as it is to the configuration, which
  stores it and writes it to disk when the write succeeds, while the rotation
  manager stores the clamped value. Both updates happen whether or not the save
  fails, and for \<open>v\<close> outside 0..100 the configuration's brightness differs from
  the manager's.
\<close>

theorem Display_SetBrightness_persists_raw:
  "brightness (rotation (fst (snd (Display_SetBrightness fs_ok v d)))) = min 100 (max 0 v)
   \<and> cBrightness (config (fst (snd (Display_SetBrightness fs_ok v d)))) = v
   \<and> (path (config d) \<noteq> [] \<and> fs_ok \<longrightarrow>
        fst (Display_SetBrightness fs_ok v d) = None
        \<and> snd (snd (Display_SetBrightness fs_ok v d)) = Some ((config d)\<lparr>cBrightness := v\<rparr>))
   \<and> (path (config d) = [] \<or> \<not> fs_ok \<longrightarrow>
        fst (Display_SetBrightness fs_ok v d) \<noteq> None
        \<and> snd (snd (Display_SetBrightness fs_ok v d)) = None)
   \<and> (v < 0 \<or> 100 < v \<longrightarrow>
        cBrightness (config (fst (snd (Display_SetBrightness fs_ok v d))))
          \<noteq> brightness (rotation (fst (snd (Display_SetBrightness fs_ok v d)))))"
  by (auto simp: Display_SetBrightness_def Config_SetBrightness_def Save_def SetBrightness_def
      Let_def)

theorem Display_SetBrightness_persists_raw_witness:
  "path (config small_display) \<noteq> [] \<and> (100::int) < 150
   \<and> fst (Display_SetBrightness True 150 small_display) = None
   \<and> fst (Display_SetBrightness False 150 small_display) = Some WriteFailed
   \<and> snd (snd (Display_SetBrightness True 150 small_display))
       = Some ((config small_display)\<lparr>cBrightness := 150\<rparr>)
   \<and> cBrightness (config (fst (snd (Display_SetBrightness False 150 small_display)))) = 150
   \<and> brightness (rotation (fst (snd (Display_SetBrightness False 150 small_display)))) = 100"
proof -
  have p: "path (config small_display) \<noteq> []"
    by (simp add: small_display_def NewDisplay_def renderStartupScreen_def RenderSource_def
        failing_renderer_def Let_def)
  have f: "fst (Display_SetBrightness False 150 small_display) = Some WriteFailed"
    using p by (simp add: Display_SetBrightness_def Config_SetBrightness_def Save_def Let_def)
  from Display_SetBrightness_persists_raw [of True 150 small_display]
    Display_SetBrightness_persists_raw [of False 150 small_display] p f
  show ?thesis by simp
qed

subsection \<open>The display: showing one application\<close>

text \<open>
  C6. \<open>ShowApp\<close> returns an error exactly when the repository has no application
  with that identifier, and then the display is unchanged and no goroutine is
  started. Otherwise rotation is disabled afterwards and, for a positive
  duration, the goroutine started holds the enabled flag as it was before the
  call; when it runs, the flag is that value again.
\<close>

theorem ShowApp_error_iff_not_installed:
  "(fst (ShowApp rnd now appID durationSecs d) \<noteq> None) = (Repository_Get (repo d) appID = None)
   \<and> (Repository_Get (repo d) appID = None \<longrightarrow>
        ShowApp rnd now appID durationSecs d = (Some (AppNotInstalled appID), d, None))
   \<and> (Repository_Get (repo d) appID \<noteq> None \<longrightarrow>
        \<not> IsEnabled (rotation (fst (snd (ShowApp rnd now appID durationSecs d))))
        \<and> (durationSecs > 0 \<longrightarrow>
             snd (snd (ShowApp rnd now appID durationSecs d))
               = Some (Restore durationSecs (IsEnabled (rotation d))))
        \<and> (durationSecs \<le> 0 \<longrightarrow> snd (snd (ShowApp rnd now appID durationSecs d)) = None))
   \<and> IsEnabled (rotation (run_task (Restore durationSecs wasEnabled) d')) = wasEnabled"
  by (auto simp: ShowApp_def Let_def IsEnabled_def SetEnabled_def renderApp_def
      renderErrorScreen_def RenderSource_def setFrame_def split: option.splits sum.splits)

theorem ShowApp_error_iff_not_installed_witness:
  "Repository_Get (repo small_display) ''weather'' = None
   \<and> ShowApp failing_renderer 5 ''weather'' 30 small_display
       = (Some (AppNotInstalled ''weather''), small_display, None)
   \<and> Repository_Get (repo small_display) ''clock'' \<noteq> None \<and> (30::int) > 0
   \<and> IsEnabled (rotation small_display)
   \<and> fst (ShowApp failing_renderer 5 ''clock'' 30 small_display) = None
   \<and> \<not> IsEnabled (rotation (fst (snd (ShowApp failing_renderer 5 ''clock'' 30 small_display))))
   \<and> snd (snd (ShowApp failing_renderer 5 ''clock'' 30 small_display)) = Some (Restore 30 True)
   \<and> IsEnabled (rotation (run_task (Restore 30 True)
         (fst (snd (ShowApp failing_renderer 5 ''clock'' 30 small_display)))))"
proof -
  have r: "repo small_display = clock_repo" and e: "IsEnabled (rotation small_display)"
    by (simp_all add: small_display_def NewDisplay_def renderStartupScreen_def RenderSource_def
        failing_renderer_def Let_def IsEnabled_def OnAdvance_def SetApps_def notifyUpdate_def
        SetBrightness_def SetEnabled_def DefaultConfig_def)
  have w: "Repository_Get (repo small_display) ''weather'' = None"
    and c: "Repository_Get (repo small_display) ''clock'' \<noteq> None"
    by (simp_all add: r Repository_Get_def clock_repo_def)
  from ShowApp_error_iff_not_installed [of failing_renderer 5 "''weather''" 30 small_display]
    ShowApp_error_iff_not_installed [of failing_renderer 5 "''clock''" 30 small_display True
      "fst (snd (ShowApp failing_renderer 5 ''clock'' 30 small_display))"]
    w c e
  show ?thesis by simp
qed

subsection \<open>The display: power\<close>

text \<open>
  Powering off a display whose dimensions are not negative and whose buffer size
  is within the allocation limit: rotation is disabled, the stored frame has brightness 0 and
  dwell 0, and \<open>GetFrame\<close> returns the all-zero buffer of \<open>Width * Height * 3\<close>
  bytes with the brightness of the rotation manager and the dwell of the
  configuration.
\<close>

lemma SetPower_off_frame:
  assumes "0 \<le> dWidth d" "0 \<le> dHeight d" "dWidth d * dHeight d * 3 \<le> maxAlloc"
  shows "\<exists>err d' w f.
           Display_SetPower rnd fs_ok now False d = Inr (err, d', w)
           \<and> \<not> IsRotationEnabled d'
           \<and> GetFrame now' d' = Inr f
           \<and> Pixels f = replicate (nat (dWidth d * dHeight d * 3)) 0
           \<and> Brightness f = GetBrightness (rotation d)
           \<and> DwellSecs f = go_div (DefaultDwell (config d)) 1000
           \<and> (\<exists>stored. currentFrame d' = Some stored \<and> Brightness stored = 0 \<and> DwellSecs stored = 0)"
proof -
  from assms(1,2) have p0: "0 \<le> dWidth d * dHeight d" by simp
  from assms(3) have b3: "dWidth d * dHeight d * 3 < 2 ^ 63"
    by (simp add: maxAlloc_def)
  with p0 have p1: "dWidth d * dHeight d < 2 ^ 63" by simp
  from p0 p1 have w1: "wrap64 (dWidth d * dHeight d) = dWidth d * dHeight d"
    by (simp add: wrap64_def)
  from p0 b3 have w2: "wrap64 (dWidth d * dHeight d * 3) = dWidth d * dHeight d * 3"
    by (simp add: wrap64_def)
  from p0 have "0 \<le> (dWidth d * dHeight d) * 3" by (rule mult_nonneg_nonneg) simp
  then have m1: "\<not> dWidth d * dHeight d * 3 < 0" by linarith
  from assms(3) have m2: "\<not> dWidth d * dHeight d * 3 > maxAlloc" by simp
  have mk: "make_bytes (dWidth d * dHeight d * 3)
      = Inr (replicate (nat (dWidth d * dHeight d * 3)) 0)"
    using m1 m2 by (simp only: make_bytes_def) simp
  show ?thesis
    by (simp add: Display_SetPower_def renderBlankScreen_def mk w1 w2
        Config_SetPower_def Let_def GetFrame_def IsRotationEnabled_def IsEnabled_def
        SetEnabled_def GetBrightness_def)
qed

text \<open>
  C1. After \<open>SetPower(false)\<close> the frame \<open>GetFrame\<close> returns is claimed to have
  brightness 0 and dwell 0. On the 2 by 1 display with the default configuration,
  rotation is disabled and the stored frame has brightness 0 and dwell 0, but the
  frame \<open>GetFrame\<close> returns, six zero bytes, has brightness 80 and dwell 10.
\<close>

theorem SetPower_off_GetFrame_brightness:
  "(\<exists>err d' w f stored.
      Display_SetPower failing_renderer True 5 False small_display = Inr (err, d', w)
      \<and> \<not> IsRotationEnabled d'
      \<and> currentFrame d' = Some stored \<and> Brightness stored = 0 \<and> DwellSecs stored = 0
      \<and> GetFrame 6 d' = Inr f
      \<and> Pixels f = [0, 0, 0, 0, 0, 0]
      \<and> Brightness f = 80 \<and> DwellSecs f = 10)"
proof -
  have d: "small_display =
      \<lparr>dID = ''d1'', dName = ''Desk'', dWidth = 2, dHeight = 1, ClientType = [],
       config = DefaultConfig\<lparr>path := ''/data/config.json''\<rparr>, repo = clock_repo,
       rotation = OnAdvance (SetApps [] (SetBrightness 80 (SetEnabled True
          (NewManager (wrap64 (10000 * Millisecond)))))),
       currentFrame = None\<rparr>"
    by (simp add: small_display_def NewDisplay_def renderStartupScreen_def RenderSource_def
        failing_renderer_def Let_def DefaultConfig_def Config_GetApps_def)
  have w: "wrap64 6 = 6" "wrap64 2 = 2"
    by (simp_all add: wrap64_def)
  have r: "replicate 6 (0::byte) = [0, 0, 0, 0, 0, 0]"
    by (simp add: numeral_eq_Suc)
  show ?thesis
    by (simp add: d Display_SetPower_def renderBlankScreen_def make_bytes_def maxAlloc_def w r
        Config_SetPower_def Save_def Let_def GetFrame_def IsRotationEnabled_def IsEnabled_def
        SetEnabled_def GetBrightness_def SetBrightness_def OnAdvance_def SetApps_def
        notifyUpdate_def NewManager_def DefaultConfig_def go_div_def)
qed

end
